theory Spec2Isabelle
  imports Complex_Main "HOL-Library.Multiset"
begin

section \<open>Data model of \<^verbatim>\<open>sasutils/cli/sas_devices.py\<close>\<close>

text \<open>
  The exceptions the pass can raise. \<open>AttributeError\<close> is the only one the source
  catches (line 118); \<open>IndexError\<close> is \<^verbatim>\<open>devlist[0]\<close> on an empty list,
  \<open>ValueError\<close> is \<^verbatim>\<open>int(...)\<close> on a text that is no integer and \<^verbatim>\<open>max()\<close>
  of an empty sequence; \<open>IdentifierUnavailable\<close> is the failure of an identifier
  lookup.
\<close>

datatype error = AttributeError | ValueError | IndexError | IdentifierUnavailable

type_synonym lu = string

text \<open>
  An enclosure is an object; the source uses it as a set element and sorts it, so the
  model keeps its identity only and reads its attributes through the environment.
\<close>

type_synonym enclosure = nat

text \<open>
  \<^verbatim>\<open>scsi_device.block\<close>: the block device with its name, its size in bytes
  (\<^verbatim>\<open>sizebytes()\<close>), its array device (\<open>None\<close>, or the enclosure of the array
  device) and the sysfs path of the SCSI device that owns it.
\<close>

record block_device =
  blk_name :: string
  sizebytes :: int
  array_device :: "enclosure option"
  sysfsnode_path :: string

text \<open>
  A \<^verbatim>\<open>SASEndDevice\<close> whose SCSI device has a block device. \<open>bay_identifier\<close>
  is the value of \<^verbatim>\<open>int(sas_device.attrs.bay_identifier)\<close>, \<open>None\<close> when the
  conversion raises \<open>ValueError\<close>; \<open>vpd_pg83\<close> is \<open>None\<close> when the attribute
  is missing (reading it raises \<open>AttributeError\<close>).
\<close>

record sas_end_device =
  vendor :: string
  model :: string
  rev_attr :: string
  bay_identifier :: "int option"
  vpd_pg83 :: "string option"
  sg_devname :: string
  block :: block_device

text \<open>
  One entry of \<^verbatim>\<open>/sys/class/sas_end_device\<close>. Of an end device whose SCSI device
  has no block device the source reads nothing but that fact (line 114), so such a
  node carries no attributes.
\<close>

datatype sysfs_node = Blockless | Blockdev sas_end_device

text \<open>
  The collaborators that are not part of this file: the two identifier lookups of
  \<^verbatim>\<open>sasutils.vpd\<close>, each returning an identifier or raising; the nickname lookup
  of \<^verbatim>\<open>sasutils.ses\<close>; and the attributes of an enclosure object.
\<close>

record extern =
  vpd_decode_pg83_lu :: "string \<Rightarrow> error + lu"
  vpd_get_page83_lu :: "string \<Rightarrow> error + lu"
  ses_get_snic_nickname :: "string \<Rightarrow> string option"
  enc_sg_name :: "enclosure \<Rightarrow> string"
  enc_vendor :: "enclosure \<Rightarrow> string"
  enc_model :: "enclosure \<Rightarrow> string"
  enc_sas_address :: "enclosure \<Rightarrow> string"

text \<open>
  \<^verbatim>\<open>devmap\<close>, a dictionary from identifier to the list of its end devices, as an
  association list with distinct keys. The list order stands for the order in which
  \<^verbatim>\<open>devmap.items()\<close> yields the entries; the collector below builds it in order of
  first insertion, and every property of the later passes is stated for an arbitrary
  list, hence for every iteration order.
\<close>

type_synonym devmap = "(lu \<times> sas_end_device list) list"

section \<open>Text formatting\<close>

text \<open>Decimal digits of a non-negative integer, and \<^verbatim>\<open>"%d"\<close>.\<close>

function str_pos :: "int \<Rightarrow> string" where
  "str_pos n =
     (if n < 10 then [''0123456789'' ! nat n]
      else str_pos (n div 10) @ [''0123456789'' ! nat (n mod 10)])"
  by pat_completeness auto
termination
  by (relation "measure nat") auto

declare str_pos.simps [simp del]

definition str_int :: "int \<Rightarrow> string" where
  "str_int i = (if i < 0 then ''-'' @ str_pos (- i) else str_pos i)"

text \<open>Format specifications \<^verbatim>\<open>>w\<close> and \<^verbatim>\<open><w\<close>: pad with blanks, never cut.\<close>

definition rjust :: "nat \<Rightarrow> string \<Rightarrow> string" where
  "rjust w s = replicate (w - length s) CHR '' '' @ s"

definition ljust :: "nat \<Rightarrow> string \<Rightarrow> string" where
  "ljust w s = s @ replicate (w - length s) CHR '' ''"

fun join :: "string \<Rightarrow> string list \<Rightarrow> string" where
  "join sep [] = []"
| "join sep [s] = s"
| "join sep (s # t # ss) = s @ sep @ join sep (t # ss)"

subsection \<open>The size of a block device, \<^verbatim>\<open>"%.1f" % (blk_sz / 1e12)\<close>\<close>

text \<open>
  The quotient is a double. A non-negative double is kept as its exact value
  \<open>m * 2 ^ e\<close>, a pair of a mantissa of at most 53 bits and an exponent; every step
  rounds to nearest, ties to even, as IEEE 754 arithmetic and the formatting of
  CPython do. Exponent overflow and subnormal numbers are out of reach of a size in
  bytes and are not modelled.
\<close>

function bitlen :: "int \<Rightarrow> nat" where
  "bitlen n = (if n \<le> 0 then 0 else Suc (bitlen (n div 2)))"
  by pat_completeness auto
termination
  by (relation "measure nat") auto

declare bitlen.simps [simp del]

text \<open>The integer nearest to \<open>n / d\<close> for \<open>n \<ge> 0\<close> and \<open>d > 0\<close>, ties to even.\<close>

definition round_half_even :: "int \<Rightarrow> int \<Rightarrow> int" where
  "round_half_even n d =
     (let q = n div d; r = n mod d
      in if 2 * r < d \<or> (2 * r = d \<and> even q) then q else q + 1)"

text \<open>The double nearest to the rational \<open>n / d\<close>, for \<open>n \<ge> 0\<close> and \<open>d > 0\<close>.\<close>

definition to_double :: "int \<Rightarrow> int \<Rightarrow> int \<times> int" where
  "to_double n d =
     (if n \<le> 0 then (0, 0)
      else
        let k = int (bitlen n) - int (bitlen d);
            l = (if d * 2 ^ bitlen n \<le> n * 2 ^ bitlen d then k else k - 1);
            e = l - 52
        in (round_half_even (n * 2 ^ nat (- e)) (d * 2 ^ nat e), e))"

text \<open>
  \<^verbatim>\<open>blk_sz / D\<close> for the integer \<open>blk_sz\<close> and the float literal \<open>D\<close> (\<open>1e12\<close>
  and \<open>1e9\<close> are doubles exactly): the integer is converted to a double, then the
  two doubles are divided.
\<close>

definition float_div :: "int \<Rightarrow> int \<Rightarrow> int \<times> int" where
  "float_div s D =
     (let (m, e) = to_double s 1
      in to_double (m * 2 ^ nat e) (D * 2 ^ nat (- e)))"

text \<open>
  \<^verbatim>\<open>"%.1f" % x\<close>: the decimal with one fractional digit nearest to \<open>x\<close>;
  \<open>tenths x\<close> is that decimal in tenths.
\<close>

definition tenths :: "int \<times> int \<Rightarrow> int" where
  "tenths x = (let (m, e) = x in round_half_even (m * 10 * 2 ^ nat e) (2 ^ nat (- e)))"

definition pct_1f :: "int \<times> int \<Rightarrow> string" where
  "pct_1f x = (let t = tenths x in str_pos (t div 10) @ ''.'' @ str_pos (t mod 10))"

text \<open>Lines 76 to 80 of \<^verbatim>\<open>_get_dev_attrs\<close>.\<close>

definition blk_sz_info :: "int \<Rightarrow> string" where
  "blk_sz_info blk_sz =
     (if 10 ^ 12 \<le> blk_sz then pct_1f (float_div blk_sz (10 ^ 12)) @ ''TB''
      else pct_1f (float_div blk_sz (10 ^ 9)) @ ''GB'')"

section \<open>Path collector (lines 108 to 121)\<close>

text \<open>
  The body of the \<^verbatim>\<open>try\<close>: reading \<^verbatim>\<open>vpd_pg83\<close> raises \<open>AttributeError\<close>
  when the attribute is missing, otherwise the descriptor is decoded.
\<close>

definition pg83_lookup :: "extern \<Rightarrow> sas_end_device \<Rightarrow> error + lu" where
  "pg83_lookup ex d =
     (case vpd_pg83 d of
        None \<Rightarrow> Inl AttributeError
      | Some pg83 \<Rightarrow> vpd_decode_pg83_lu ex pg83)"

text \<open>
  Only \<open>AttributeError\<close> is caught, and then the identifier is looked up by the name
  of the block device. Every other exception, and every exception of the second
  lookup, leaves the function.
\<close>

definition resolve_lu :: "extern \<Rightarrow> sas_end_device \<Rightarrow> error + lu" where
  "resolve_lu ex d =
     (case pg83_lookup ex d of
        Inr l \<Rightarrow> Inr l
      | Inl e \<Rightarrow>
          if e = AttributeError then vpd_get_page83_lu ex (blk_name (block d))
          else Inl e)"

text \<open>\<^verbatim>\<open>d.setdefault(k, []).append(v)\<close> on a dictionary kept in insertion order.\<close>

fun setdefault_append :: "'k \<Rightarrow> 'v \<Rightarrow> ('k \<times> 'v list) list \<Rightarrow> ('k \<times> 'v list) list" where
  "setdefault_append k v [] = [(k, [v])]"
| "setdefault_append k v ((k', vs) # rest) =
     (if k = k' then (k', vs @ [v]) # rest
      else (k', vs) # setdefault_append k v rest)"

fun collect :: "extern \<Rightarrow> sysfs_node list \<Rightarrow> devmap \<Rightarrow> error + devmap" where
  "collect ex [] dm = Inr dm"
| "collect ex (Blockless # nodes) dm = collect ex nodes dm"
| "collect ex (Blockdev d # nodes) dm =
     (case resolve_lu ex d of
        Inl e \<Rightarrow> Inl e
      | Inr l \<Rightarrow> collect ex nodes (setdefault_append l d dm))"

section \<open>Enclosure clustering (lines 123 to 146)\<close>

definition warning :: "block_device \<Rightarrow> string" where
  "warning blk =
     ''Warning: no enclosure set for '' @ blk_name blk @ '' in '' @ sysfsnode_path blk"

text \<open>Lines 128 to 132: one warning for each block device without array device.\<close>

definition lu_warnings :: "sas_end_device list \<Rightarrow> string list" where
  "lu_warnings sas_ed_list =
     map warning (filter (\<lambda>blk. array_device blk = None) (map block sas_ed_list))"

text \<open>Lines 133 to 135: the set of the enclosures of the other block devices.\<close>

definition lu_encs :: "sas_end_device list \<Rightarrow> enclosure set" where
  "lu_encs sas_ed_list = set (List.map_filter array_device (map block sas_ed_list))"

text \<open>
  Lines 139 to 146: the first group that is not disjoint from \<open>encs\<close> takes
  \<open>encs\<close> in and the scan stops there; when there is none, \<open>encs\<close> is a new group
  at the end of the list.
\<close>

fun add_encs :: "enclosure set \<Rightarrow> enclosure set list \<Rightarrow> enclosure set list" where
  "add_encs encs [] = [encs]"
| "add_encs encs (encset # rest) =
     (if encset \<inter> encs \<noteq> {} then (encset \<union> encs) # rest
      else encset # add_encs encs rest)"

record clustering =
  printed :: "string list"
  encgroups :: "enclosure set list"
  orphans :: devmap

definition no_clustering :: clustering where
  "no_clustering = \<lparr>printed = [], encgroups = [], orphans = []\<rparr>"

fun cluster :: "devmap \<Rightarrow> clustering \<Rightarrow> clustering" where
  "cluster [] st = st"
| "cluster ((l, sas_ed_list) # rest) st =
     (let st' = st\<lparr>printed := printed st @ lu_warnings sas_ed_list\<rparr>;
          encs = lu_encs sas_ed_list
      in if encs = {} then cluster rest (st'\<lparr>orphans := orphans st' @ [(l, sas_ed_list)]\<rparr>)
         else cluster rest (st'\<lparr>encgroups := add_encs encs (encgroups st')\<rparr>))"

section \<open>Device attributes and lines (lines 64 to 104)\<close>

record dev_attrs =
  res_vendor :: string
  res_model :: string
  res_rev :: string
  res_bay :: int
  res_blk_sz_info :: string

definition get_dev_attrs :: "sas_end_device \<Rightarrow> error + dev_attrs" where
  "get_dev_attrs d =
     (case bay_identifier d of
        None \<Rightarrow> Inl ValueError
      | Some bay \<Rightarrow>
          Inr \<lparr>res_vendor = vendor d, res_model = model d, res_rev = rev_attr d,
               res_bay = bay, res_blk_sz_info = blk_sz_info (sizebytes (block d))\<rparr>)"

text \<open>
  Lines 94 to 98. \<open>maxpaths\<close> is \<open>None\<close> for an orphan; a number counts as true
  when it is not zero.
\<close>

definition paths_field :: "nat \<Rightarrow> nat option \<Rightarrow> string" where
  "paths_field n maxpaths =
     (case maxpaths of
        None \<Rightarrow> str_int (int n)
      | Some m \<Rightarrow> if m \<noteq> 0 \<and> n < m then str_int (int n) @ ''*'' else str_int (int n))"

text \<open>
  \<^verbatim>\<open>_print_lu_devlist\<close>: the line it prints, or the exception of \<^verbatim>\<open>devlist[0]\<close>
  or of \<^verbatim>\<open>_get_dev_attrs\<close>, both raised before anything is printed.
\<close>

definition print_lu_devlist ::
    "lu \<Rightarrow> sas_end_device list \<Rightarrow> nat option \<Rightarrow> error + string" where
  "print_lu_devlist l devlist maxpaths =
     (case devlist of
        [] \<Rightarrow> Inl IndexError
      | d # _ \<Rightarrow>
          (case get_dev_attrs d of
             Inl e \<Rightarrow> Inl e
           | Inr info \<Rightarrow>
               Inr (rjust 3 (str_int (res_bay info)) @ '' '' @ rjust 10 l @ '' ''
                 @ rjust 12 (join '','' (map (\<lambda>dev. blk_name (block dev)) devlist)) @ '' ''
                 @ rjust 12 (join '','' (map sg_devname devlist)) @ '' ''
                 @ ljust 3 (paths_field (length devlist) maxpaths) @ '' ''
                 @ rjust 10 (res_vendor info) @ '' '' @ rjust 10 (res_model info) @ '' ''
                 @ rjust 8 (res_rev info) @ '' '' @ res_blk_sz_info info)))"

section \<open>The report of one enclosure group (lines 152 to 198)\<close>

text \<open>Lines 155 to 161: the nickname when there is a non-empty one.\<close>

definition encinfo :: "extern \<Rightarrow> enclosure \<Rightarrow> string" where
  "encinfo ex enc =
     (case ses_get_snic_nickname ex (enc_sg_name ex enc) of
        Some snic \<Rightarrow>
          if snic \<noteq> [] then ''['' @ snic @ '']''
          else ''['' @ enc_vendor ex enc @ '' '' @ enc_model ex enc @ '', addr: ''
                 @ enc_sas_address ex enc @ '']''
      | None \<Rightarrow>
          ''['' @ enc_vendor ex enc @ '' '' @ enc_model ex enc @ '', addr: ''
            @ enc_sas_address ex enc @ '']'')"

definition group_header :: "extern \<Rightarrow> enclosure set \<Rightarrow> string" where
  "group_header ex encset =
     ''Enclosure group: '' @ concat (map (encinfo ex) (sorted_list_of_set encset))"

text \<open>Lines 167 to 171: some block device of the unit has an enclosure in the group.\<close>

definition enclosure_finder :: "enclosure set \<Rightarrow> lu \<times> sas_end_device list \<Rightarrow> bool" where
  "enclosure_finder encset = (\<lambda>(l, sas_ed_list).
     list_ex (\<lambda>blk. case array_device blk of None \<Rightarrow> False | Some enc \<Rightarrow> enc \<in> encset)
       (map block sas_ed_list))"

text \<open>Line 174: \<^verbatim>\<open>max\<close> raises \<open>ValueError\<close> on an empty sequence.\<close>

definition max_paths :: "devmap \<Rightarrow> error + nat" where
  "max_paths encdevs =
     (case map (\<lambda>(l, devs). length devs) encdevs of
        [] \<Rightarrow> Inl ValueError
      | n # ns \<Rightarrow> Inr (fold max ns n))"

text \<open>
  Lines 177 and 178: the key of every entry is computed first, then the entries are
  sorted by it; the sort is stable.
\<close>

definition bay_key :: "lu \<times> sas_end_device list \<Rightarrow> error + int" where
  "bay_key = (\<lambda>(l, devlist).
     case devlist of
       [] \<Rightarrow> Inl IndexError
     | d # _ \<Rightarrow> (case bay_identifier d of None \<Rightarrow> Inl ValueError | Some bay \<Rightarrow> Inr bay))"

fun map_err :: "('a \<Rightarrow> error + 'b) \<Rightarrow> 'a list \<Rightarrow> error + 'b list" where
  "map_err f [] = Inr []"
| "map_err f (x # xs) =
     (case f x of
        Inl e \<Rightarrow> Inl e
      | Inr y \<Rightarrow> (case map_err f xs of Inl e \<Rightarrow> Inl e | Inr ys \<Rightarrow> Inr (y # ys)))"

definition sorted_by_bay :: "devmap \<Rightarrow> error + devmap" where
  "sorted_by_bay encdevs =
     (case map_err bay_key encdevs of
        Inl e \<Rightarrow> Inl e
      | Inr keys \<Rightarrow> Inr (map snd (sort_key fst (zip keys encdevs))))"

text \<open>
  Lines 183 to 187: the key of a unit is what \<^verbatim>\<open>_get_dev_attrs\<close> returns for its
  first device, with the number of paths added and the bay taken out.
\<close>

record FoldedDict =
  fd_vendor :: string
  fd_model :: string
  fd_rev :: string
  fd_blk_sz_info :: string
  paths :: nat

definition folded_key :: "sas_end_device list \<Rightarrow> error + FoldedDict" where
  "folded_key devlist =
     (case devlist of
        [] \<Rightarrow> Inl IndexError
      | d # _ \<Rightarrow>
          (case get_dev_attrs d of
             Inl e \<Rightarrow> Inl e
           | Inr devinfo \<Rightarrow>
               Inr \<lparr>fd_vendor = res_vendor devinfo, fd_model = res_model devinfo,
                    fd_rev = res_rev devinfo, fd_blk_sz_info = res_blk_sz_info devinfo,
                    paths = length devlist\<rparr>))"

type_synonym folded = "(FoldedDict \<times> sas_end_device list list) list"

text \<open>Lines 182 to 189: the loop that fills \<^verbatim>\<open>folded\<close> and counts the units.\<close>

fun fold_encdevs :: "devmap \<Rightarrow> folded \<times> nat \<Rightarrow> error + folded \<times> nat" where
  "fold_encdevs [] st = Inr st"
| "fold_encdevs ((l, devlist) # rest) (folded, cnt) =
     (case folded_key devlist of
        Inl e \<Rightarrow> Inl e
      | Inr k \<Rightarrow> fold_encdevs rest (setdefault_append k devlist folded, cnt + 1))"

text \<open>
  Lines 192 to 197. \<open>pathstr\<close> is computed and not used: the line is built from
  \<open>infostr\<close>, which formats the number of paths alone.
\<close>

definition pathstr :: "nat \<Rightarrow> FoldedDict \<Rightarrow> string" where
  "pathstr maxpaths t =
     (if maxpaths \<noteq> 0 \<and> paths t < maxpaths then str_int (int (paths t)) @ ''*''
      else str_int (int (paths t)) @ '' '')"

definition folded_line :: "nat \<Rightarrow> FoldedDict \<times> sas_end_device list list \<Rightarrow> string" where
  "folded_line maxpaths = (\<lambda>(t, v).
     let unused = pathstr maxpaths t;
         infostr = rjust 12 (fd_vendor t) @ '' '' @ rjust 12 (fd_model t) @ '' ''
                   @ rjust 6 (fd_rev t) @ '' '' @ rjust 6 (str_int (int (paths t)))
     in rjust 3 (str_int (int (length v))) @ '' x '' @ infostr)"

definition folded_heading :: string where
  "folded_heading =
     ''NUM   '' @ rjust 12 ''VENDOR'' @ '' '' @ rjust 12 ''MODEL'' @ '' ''
       @ rjust 6 ''REV'' @ '' '' @ rjust 6 ''PATHS''"

definition total_line :: "nat \<Rightarrow> string" where
  "total_line cnt =
     ''Total: '' @ str_int (int cnt) @ '' block devices in enclosure group''"

text \<open>
  What a run prints, and the exception that ended it, if any. \<open>print_each\<close> prints
  one line for each element until one raises.
\<close>

type_synonym run = "string list \<times> error option"

fun print_each :: "('a \<Rightarrow> error + string) \<Rightarrow> 'a list \<Rightarrow> run" where
  "print_each f [] = ([], None)"
| "print_each f (x # xs) =
     (case f x of
        Inl e \<Rightarrow> ([], Some e)
      | Inr line \<Rightarrow> (case print_each f xs of (out, r) \<Rightarrow> (line # out, r)))"

definition report_group :: "extern \<Rightarrow> bool \<Rightarrow> devmap \<Rightarrow> enclosure set \<Rightarrow> run" where
  "report_group ex verbose dm encset =
     (let header = group_header ex encset;
          encdevs = filter (enclosure_finder encset) dm
      in case max_paths encdevs of
           Inl e \<Rightarrow> ([header], Some e)
         | Inr maxpaths \<Rightarrow>
             if verbose then
               (case sorted_by_bay encdevs of
                  Inl e \<Rightarrow> ([header], Some e)
                | Inr srt \<Rightarrow>
                    (case print_each (\<lambda>(l, devlist). print_lu_devlist l devlist (Some maxpaths)) srt of
                       (out, Some e) \<Rightarrow> (header # out, Some e)
                     | (out, None) \<Rightarrow> (header # out @ [total_line (length srt)], None)))
             else
               (case fold_encdevs encdevs ([], 0) of
                  Inl e \<Rightarrow> ([header], Some e)
                | Inr (folded, cnt) \<Rightarrow>
                    (header # folded_heading # map (folded_line maxpaths) folded
                       @ [total_line cnt], None)))"

fun report_groups :: "extern \<Rightarrow> bool \<Rightarrow> devmap \<Rightarrow> enclosure set list \<Rightarrow> run" where
  "report_groups ex verbose dm [] = ([], None)"
| "report_groups ex verbose dm (encset # rest) =
     (case report_group ex verbose dm encset of
        (out, Some e) \<Rightarrow> (out, Some e)
      | (out, None) \<Rightarrow>
          (case report_groups ex verbose dm rest of (out', r) \<Rightarrow> (out @ out', r)))"

section \<open>\<^verbatim>\<open>print_end_devices\<close> (lines 106 to 203)\<close>

definition found_lines :: "clustering \<Rightarrow> string list" where
  "found_lines st =
     [''Found '' @ str_int (int (length (encgroups st))) @ '' enclosure groups'']
     @ (if orphans st \<noteq> []
        then [''Found '' @ str_int (int (length (orphans st))) @ '' orphan devices'']
        else [])"

definition print_orphans :: "devmap \<Rightarrow> run" where
  "print_orphans orph =
     (case print_each (\<lambda>(l, blklist). print_lu_devlist l blklist None) orph of
        (out, r) \<Rightarrow> ((if orph \<noteq> [] then [''Orphan devices:''] else []) @ out, r))"

definition print_end_devices :: "extern \<Rightarrow> bool \<Rightarrow> sysfs_node list \<Rightarrow> run" where
  "print_end_devices ex verbose sysfsnode =
     (case collect ex sysfsnode [] of
        Inl e \<Rightarrow> ([], Some e)
      | Inr dm \<Rightarrow>
          (let st = cluster dm no_clustering
           in case report_groups ex verbose dm (encgroups st) of
                (out, Some e) \<Rightarrow> (printed st @ found_lines st @ out, Some e)
              | (out, None) \<Rightarrow>
                  (case print_orphans (orphans st) of
                     (out', r) \<Rightarrow> (printed st @ found_lines st @ out @ out', r))))"

section \<open>Vocabulary of the properties\<close>

text \<open>The groups of a list are pairwise disjoint.\<close>

fun disjoint_groups :: "'a set list \<Rightarrow> bool" where
  "disjoint_groups [] = True"
| "disjoint_groups (g # gs) = (list_all (\<lambda>h. g \<inter> h = {}) gs \<and> disjoint_groups gs)"

text \<open>
  No unit is a bridge: at the moment a unit with enclosures is processed, at most
  one of the groups built so far overlaps its enclosures.
\<close>

fun no_bridge :: "enclosure set list \<Rightarrow> devmap \<Rightarrow> bool" where
  "no_bridge groups [] = True"
| "no_bridge groups ((l, sas_ed_list) # rest) =
     (let encs = lu_encs sas_ed_list
      in if encs = {} then no_bridge groups rest
         else length (filter (\<lambda>encset. encset \<inter> encs \<noteq> {}) groups) \<le> 1
              \<and> no_bridge (add_encs encs groups) rest)"

text \<open>The enclosure sets that reach the scan of the groups, in order.\<close>

definition lu_enc_sets :: "devmap \<Rightarrow> enclosure set list" where
  "lu_enc_sets dm = filter (\<lambda>encs. encs \<noteq> {}) (map (\<lambda>(l, devs). lu_encs devs) dm)"

text \<open>The number of groups whose membership test selects a unit.\<close>

definition group_count :: "enclosure set list \<Rightarrow> lu \<times> sas_end_device list \<Rightarrow> nat" where
  "group_count groups unit = length (filter (\<lambda>encset. enclosure_finder encset unit) groups)"

text \<open>Every unit of an entry of \<^verbatim>\<open>folded\<close> has the key of the entry.\<close>

definition keyed :: "folded \<Rightarrow> bool" where
  "keyed f = (\<forall>(k, vs) \<in> set f. \<forall>devs \<in> set vs. folded_key devs = Inr k)"

text \<open>The real number that a double of the model stands for.\<close>

definition dval :: "int \<times> int \<Rightarrow> real" where
  "dval x = real_of_int (fst x) * 2 powr real_of_int (snd x)"

section \<open>Example inputs\<close>

text \<open>
  A disk of vendor ACME seen through one path: its identifier (the page 0x83
  descriptor, which the example lookup returns as it is), the name of its block
  device, its bay, its size and its enclosure.
\<close>

definition disk :: "lu \<Rightarrow> string \<Rightarrow> int \<Rightarrow> int \<Rightarrow> enclosure option \<Rightarrow> sas_end_device" where
  "disk l nm bay sz enc =
     \<lparr>vendor = ''ACME'', model = ''D1'', rev_attr = ''1.0'', bay_identifier = Some bay,
      vpd_pg83 = Some l, sg_devname = ''sg_'' @ nm,
      block = \<lparr>blk_name = nm, sizebytes = sz, array_device = enc,
               sysfsnode_path = ''/sys/devices/'' @ nm\<rparr>\<rparr>"

definition example_extern :: extern where
  "example_extern =
     \<lparr>vpd_decode_pg83_lu = (\<lambda>pg83. Inr pg83),
      vpd_get_page83_lu = (\<lambda>nm. Inl IdentifierUnavailable),
      ses_get_snic_nickname = (\<lambda>sg. None),
      enc_sg_name = (\<lambda>enc. ''sg_enc''),
      enc_vendor = (\<lambda>enc. ''ACME''),
      enc_model = (\<lambda>enc. ''JBOD''),
      enc_sas_address = (\<lambda>enc. ''0x5000'' @ str_int (int enc))\<rparr>"

text \<open>
  Two units in the enclosures 1 and 2, then a unit with a path through each. The
  identifiers are in the order in which a CPython 2 dictionary yields them.
\<close>

definition bridge_devmap :: devmap where
  "bridge_devmap =
     [(''LU1'', [disk ''LU1'' ''sda'' 1 (4 * 10 ^ 12) (Some 1)]),
      (''LU2'', [disk ''LU2'' ''sdb'' 2 (4 * 10 ^ 12) (Some 2)]),
      (''LU3'', [disk ''LU3'' ''sdc'' 3 (4 * 10 ^ 12) (Some 1),
                 disk ''LU3'' ''sdd'' 3 (4 * 10 ^ 12) (Some 2)])]"


text \<open>
  The same vendor, model, revision and number of paths, in different bays; the
  first unit has 500 GB, the second 2 TB.
\<close>

definition sizes_encdevs :: devmap where
  "sizes_encdevs =
     [(''LU1'', [disk ''LU1'' ''sda'' 1 (5 * 10 ^ 11) (Some 1),
                 disk ''LU1'' ''sdb'' 1 (5 * 10 ^ 11) (Some 1)]),
      (''LU2'', [disk ''LU2'' ''sdc'' 2 (2 * 10 ^ 12) (Some 1),
                 disk ''LU2'' ''sdd'' 2 (2 * 10 ^ 12) (Some 1)])]"

text \<open>The same two units with the same size.\<close>

definition twins_encdevs :: devmap where
  "twins_encdevs =
     [(''LU1'', [disk ''LU1'' ''sda'' 1 (2 * 10 ^ 12) (Some 1),
                 disk ''LU1'' ''sdb'' 1 (2 * 10 ^ 12) (Some 1)]),
      (''LU2'', [disk ''LU2'' ''sdc'' 2 (2 * 10 ^ 12) (Some 1),
                 disk ''LU2'' ''sdd'' 2 (2 * 10 ^ 12) (Some 1)])]"

text \<open>
  The end devices of a run: a disk with two paths and a disk with one path, all in
  enclosure 1.
\<close>

definition underpathed_nodes :: "sysfs_node list" where
  "underpathed_nodes =
     [Blockdev (disk ''LU1'' ''sda'' 1 (4 * 10 ^ 12) (Some 1)),
      Blockdev (disk ''LU1'' ''sdb'' 1 (4 * 10 ^ 12) (Some 1)),
      Blockdev (disk ''LU2'' ''sdc'' 2 (4 * 10 ^ 12) (Some 1))]"

text \<open>
  A disk without page 0x83 attribute, for which the second lookup fails too, before
  a disk that resolves.
\<close>

definition unidentified_nodes :: "sysfs_node list" where
  "unidentified_nodes =
     [Blockdev ((disk ''LU1'' ''sda'' 1 (4 * 10 ^ 12) (Some 1))\<lparr>vpd_pg83 := None\<rparr>),
      Blockdev (disk ''LU2'' ''sdb'' 2 (4 * 10 ^ 12) (Some 1))]"

text \<open>
  Two paths of one unit through enclosure 1; a unit in enclosure 2; a unit with a
  path through enclosure 2 and one through enclosure 3; a unit without enclosure.
\<close>

definition two_groups_devmap :: devmap where
  "two_groups_devmap =
     [(''LU1'', [disk ''LU1'' ''sda'' 1 (4 * 10 ^ 12) (Some 1),
                 disk ''LU1'' ''sdb'' 1 (4 * 10 ^ 12) (Some 1)]),
      (''LU2'', [disk ''LU2'' ''sdc'' 2 (4 * 10 ^ 12) (Some 2)]),
      (''LU3'', [disk ''LU3'' ''sdd'' 3 (4 * 10 ^ 12) (Some 2),
                 disk ''LU3'' ''sde'' 3 (4 * 10 ^ 12) (Some 3)]),
      (''LU4'', [disk ''LU4'' ''sdf'' 4 (4 * 10 ^ 12) None])]"

text \<open>
  Three units of enclosure 1 in three bays: two paths, one path, two paths; the first
  and the third have the same key.
\<close>

definition three_encdevs :: devmap where
  "three_encdevs =
     [(''LU1'', [disk ''LU1'' ''sda'' 1 (2 * 10 ^ 12) (Some 1),
                 disk ''LU1'' ''sdb'' 1 (2 * 10 ^ 12) (Some 1)]),
      (''LU2'', [disk ''LU2'' ''sdc'' 2 (2 * 10 ^ 12) (Some 1)]),
      (''LU3'', [disk ''LU3'' ''sdd'' 3 (2 * 10 ^ 12) (Some 1),
                 disk ''LU3'' ''sde'' 3 (2 * 10 ^ 12) (Some 1)])]"

section \<open>The clustering pass as three folds\<close>


lemma cluster_orphans:
  "orphans (cluster dm st) = orphans st @ filter (\<lambda>(l, devs). lu_encs devs = {}) dm"
  by (induction dm st rule: cluster.induct) (simp_all add: Let_def)

lemma cluster_encgroups:
  "encgroups (cluster dm st) =
     foldl (\<lambda>gs encs. add_encs encs gs) (encgroups st)
       (filter (\<lambda>encs. encs \<noteq> {}) (map (\<lambda>(l, devs). lu_encs devs) dm))"
  by (induction dm st rule: cluster.induct) (simp_all add: Let_def)

lemma Union_add_encs: "\<Union> (set (add_encs encs gs)) = \<Union> (set gs) \<union> encs"
  by (induction gs) auto

lemma Union_foldl_add_encs:
  "\<Union> (set (foldl (\<lambda>gs encs. add_encs encs gs) gs es)) = \<Union> (set gs) \<union> \<Union> (set es)"
  by (induction es arbitrary: gs) (auto simp: Union_add_encs)

lemma set_add_encs:
  "h \<in> set (add_encs encs gs) \<Longrightarrow> h = encs \<or> h \<in> set gs \<or> (\<exists>g \<in> set gs. h = g \<union> encs)"
  by (induction gs) (auto split: if_splits)

lemma disjoint_add_encs:
  "disjoint_groups gs \<Longrightarrow> length (filter (\<lambda>g. g \<inter> encs \<noteq> {}) gs) \<le> 1
   \<Longrightarrow> disjoint_groups (add_encs encs gs)"
proof (induction gs)
  case Nil
  then show ?case by simp
next
  case (Cons g gs)
  show ?case
  proof (cases "g \<inter> encs = {}")
    case True
    with Cons.prems have d: "disjoint_groups (add_encs encs gs)"
      using Cons.IH by simp
    have "h \<in> set (add_encs encs gs) \<Longrightarrow> g \<inter> h = {}" for h
      using set_add_encs[of h encs gs] Cons.prems(1) True
      by (auto simp: list_all_iff)
    with d True show ?thesis by (simp add: list_all_iff)
  next
    case False
    with Cons.prems(2) have "filter (\<lambda>g. g \<inter> encs \<noteq> {}) gs = []" by simp
    then have "\<forall>h \<in> set gs. h \<inter> encs = {}" by (simp add: filter_empty_conv)
    with Cons.prems(1) False show ?thesis by (auto simp: list_all_iff)
  qed
qed

lemma no_bridge_foldl:
  "disjoint_groups gs \<Longrightarrow> no_bridge gs dm
   \<Longrightarrow> disjoint_groups (foldl (\<lambda>gs encs. add_encs encs gs) gs (lu_enc_sets dm))"
proof (induction dm arbitrary: gs)
  case Nil
  then show ?case by (simp add: lu_enc_sets_def)
next
  case (Cons x dm)
  obtain l devs where x: "x = (l, devs)" by (cases x)
  show ?case
  proof (cases "lu_encs devs = {}")
    case True
    with Cons x show ?thesis by (simp add: lu_enc_sets_def)
  next
    case False
    with Cons.prems x have "disjoint_groups (add_encs (lu_encs devs) gs)"
      and "no_bridge (add_encs (lu_encs devs) gs) dm"
      by (simp_all add: Let_def disjoint_add_encs)
    then have "disjoint_groups
       (foldl (\<lambda>gs encs. add_encs encs gs) (add_encs (lu_encs devs) gs) (lu_enc_sets dm))"
      by (rule Cons.IH)
    with False x show ?thesis by (simp add: lu_enc_sets_def)
  qed
qed

lemma no_bridge_disjoint:
  "no_bridge [] dm \<Longrightarrow> disjoint_groups (encgroups (cluster dm no_clustering))"
  using no_bridge_foldl [of "[]" dm]
  by (simp add: cluster_encgroups no_clustering_def lu_enc_sets_def)

lemma disjoint_count:
  "disjoint_groups gs \<Longrightarrow> e \<in> \<Union> (set gs) \<Longrightarrow> length (filter (\<lambda>g. e \<in> g) gs) = 1"
  by (induction gs) (auto simp: list_all_iff filter_empty_conv)


lemma lu_encs_iff: "e \<in> lu_encs devs \<longleftrightarrow> (\<exists>d \<in> set devs. array_device (block d) = Some e)"
  by (induction devs) (auto simp: lu_encs_def split: option.splits)


lemma enclosure_finder_iff:
  "enclosure_finder g (l, devs) \<longleftrightarrow> g \<inter> lu_encs devs \<noteq> {}"
proof -
  have "enclosure_finder g (l, devs) \<longleftrightarrow> (\<exists>d \<in> set devs. \<exists>e. array_device (block d) = Some e \<and> e \<in> g)"
    by (auto simp: enclosure_finder_def list_ex_iff split: option.splits)
  also have "\<dots> \<longleftrightarrow> (\<exists>e. e \<in> g \<and> e \<in> lu_encs devs)"
    unfolding lu_encs_iff by blast
  also have "\<dots> \<longleftrightarrow> g \<inter> lu_encs devs \<noteq> {}" by blast
  finally show ?thesis .
qed

lemma add_encs_length: "length gs \<le> length (add_encs encs gs)"
  by (induction gs) auto

lemma add_encs_mono: "i < length gs \<Longrightarrow> gs ! i \<subseteq> add_encs encs gs ! i"
  by (induction gs arbitrary: i) (auto simp: nth_Cons split: nat.splits)

lemma add_encs_home: "\<exists>i < length (add_encs encs gs). encs \<subseteq> add_encs encs gs ! i"
proof (induction gs)
  case Nil
  then show ?case by simp
next
  case (Cons g gs)
  show ?case
  proof (cases "g \<inter> encs = {}")
    case True
    from Cons obtain i where "i < length (add_encs encs gs)" "encs \<subseteq> add_encs encs gs ! i"
      by blast
    with True have "Suc i < length (add_encs encs (g # gs)) \<and> encs \<subseteq> add_encs encs (g # gs) ! Suc i"
      by simp
    then show ?thesis by blast
  next
    case False
    then have "0 < length (add_encs encs (g # gs)) \<and> encs \<subseteq> add_encs encs (g # gs) ! 0"
      by simp
    then show ?thesis by blast
  qed
qed

lemma foldl_add_encs_mono:
  "i < length gs \<Longrightarrow>
   i < length (foldl (\<lambda>gs encs. add_encs encs gs) gs es)
   \<and> gs ! i \<subseteq> foldl (\<lambda>gs encs. add_encs encs gs) gs es ! i"
proof (induction es arbitrary: gs)
  case Nil
  then show ?case by simp
next
  case (Cons e es)
  from Cons.prems have i: "i < length (add_encs e gs)"
    using add_encs_length [of gs e] by simp
  from Cons.IH [OF i] add_encs_mono [OF Cons.prems, of e] show ?case
    by auto
qed

lemma foldl_add_encs_home:
  "e \<in> set es \<Longrightarrow>
   \<exists>i < length (foldl (\<lambda>gs encs. add_encs encs gs) gs es).
      e \<subseteq> foldl (\<lambda>gs encs. add_encs encs gs) gs es ! i"
proof (induction es arbitrary: gs)
  case Nil
  then show ?case by simp
next
  case (Cons a es)
  show ?case
  proof (cases "e = a")
    case True
    obtain i where i: "i < length (add_encs a gs)" "a \<subseteq> add_encs a gs ! i"
      using add_encs_home by blast
    from foldl_add_encs_mono [OF i(1), of es] i(2) True show ?thesis
      by auto
  next
    case False
    with Cons.prems have "e \<in> set es" by simp
    from Cons.IH [OF this, of "add_encs a gs"] show ?thesis by simp
  qed
qed

lemma disjoint_overlap_count:
  "disjoint_groups gs \<Longrightarrow> i < length gs \<Longrightarrow> A \<subseteq> gs ! i \<Longrightarrow> A \<noteq> {}
   \<Longrightarrow> length (filter (\<lambda>g. g \<inter> A \<noteq> {}) gs) = 1"
proof (induction gs arbitrary: i)
  case Nil
  then show ?case by simp
next
  case (Cons g gs)
  show ?case
  proof (cases i)
    case 0
    with Cons.prems have "A \<subseteq> g" by simp
    with Cons.prems(1) have "\<forall>h \<in> set gs. h \<inter> A = {}"
      by (auto simp: list_all_iff)
    then have "filter (\<lambda>g. g \<inter> A \<noteq> {}) gs = []" by (simp add: filter_empty_conv)
    moreover from \<open>A \<subseteq> g\<close> \<open>A \<noteq> {}\<close> have "g \<inter> A \<noteq> {}" by blast
    ultimately show ?thesis by simp
  next
    case (Suc j)
    with Cons.prems have j: "j < length gs" "A \<subseteq> gs ! j" by simp_all
    then have "gs ! j \<in> set gs" by simp
    with Cons.prems(1) have "g \<inter> gs ! j = {}" by (auto simp: list_all_iff)
    with j(2) have "g \<inter> A = {}" by blast
    moreover from Cons.IH [OF _ j \<open>A \<noteq> {}\<close>] Cons.prems(1)
    have "length (filter (\<lambda>g. g \<inter> A \<noteq> {}) gs) = 1" by simp
    ultimately show ?thesis by simp
  qed
qed

lemma foldl_add_encs_origin:
  "g \<in> set (foldl (\<lambda>gs encs. add_encs encs gs) gs es)
   \<Longrightarrow> (\<exists>h \<in> set gs. h \<subseteq> g) \<or> (\<exists>e \<in> set es. e \<subseteq> g)"
proof (induction es arbitrary: gs)
  case Nil
  then show ?case by auto
next
  case (Cons a es)
  from Cons.prems have "g \<in> set (foldl (\<lambda>gs encs. add_encs encs gs) (add_encs a gs) es)"
    by simp
  from Cons.IH [OF this] show ?case
  proof
    assume "\<exists>h \<in> set (add_encs a gs). h \<subseteq> g"
    then obtain h where h: "h \<in> set (add_encs a gs)" "h \<subseteq> g" by blast
    from set_add_encs [OF h(1)] h(2) show ?thesis by auto
  next
    assume "\<exists>e \<in> set es. e \<subseteq> g"
    then show ?thesis by auto
  qed
qed

lemma lu_enc_sets_mem:
  "(l, devs) \<in> set dm \<Longrightarrow> lu_encs devs \<noteq> {} \<Longrightarrow> lu_encs devs \<in> set (lu_enc_sets dm)"
  by (force simp: lu_enc_sets_def)

lemma lu_enc_sets_origin:
  "e \<in> set (lu_enc_sets dm) \<Longrightarrow> e \<noteq> {} \<and> (\<exists>l devs. (l, devs) \<in> set dm \<and> e = lu_encs devs)"
  by (auto simp: lu_enc_sets_def)

lemma encgroups_cluster:
  "encgroups (cluster dm no_clustering) = foldl (\<lambda>gs encs. add_encs encs gs) [] (lu_enc_sets dm)"
  by (simp add: cluster_encgroups no_clustering_def lu_enc_sets_def)

lemma group_count_overlap:
  "group_count gs (l, devs) = length (filter (\<lambda>g. g \<inter> lu_encs devs \<noteq> {}) gs)"
  by (simp add: group_count_def enclosure_finder_iff)

lemma max_paths_nonempty: "encdevs \<noteq> [] \<Longrightarrow> \<exists>n. max_paths encdevs = Inr n"
  by (cases encdevs) (auto simp: max_paths_def)

section \<open>Rounding errors of the size text\<close>

lemma bitlen_bounds: "0 < n \<Longrightarrow> 2 ^ (bitlen n - 1) \<le> n \<and> n < 2 ^ bitlen n"
proof (induction n rule: bitlen.induct)
  case (1 n)
  show ?case
  proof (cases "n div 2 \<le> 0")
    case True
    with 1 have "n = 1" by linarith
    then show ?thesis by (simp add: bitlen.simps [of 1] bitlen.simps [of 0])
  next
    case False
    then have p: "0 < n div 2" by simp
    with 1 have ih: "2 ^ (bitlen (n div 2) - 1) \<le> n div 2 \<and> n div 2 < 2 ^ bitlen (n div 2)"
      by simp
    from p have "0 < bitlen (n div 2)" by (simp add: bitlen.simps [of "n div 2"])
    then obtain b where b: "bitlen (n div 2) = Suc b" by (cases "bitlen (n div 2)") auto
    from 1 have bn: "bitlen n = Suc (bitlen (n div 2))" by (simp add: bitlen.simps [of n])
    from ih b have "2 ^ b \<le> n div 2" "n div 2 < 2 ^ Suc b" by simp_all
    then have "2 * 2 ^ b \<le> n" "n < 2 * 2 ^ Suc b" by linarith+
    with bn b show ?thesis by simp
  qed
qed

lemma round_half_even_err:
  assumes "0 < d"
  shows "\<bar>real_of_int (round_half_even n d) - real_of_int n / real_of_int d\<bar> \<le> 1 / 2"
proof -
  define q r where "q = n div d" and "r = n mod d"
  have n: "n = q * d + r" by (simp add: q_def r_def)
  have r: "0 \<le> r" "r < d" using assms by (simp_all add: r_def)
  have frac: "real_of_int n / real_of_int d = real_of_int q + real_of_int r / real_of_int d"
    using assms by (simp add: n field_simps)
  show ?thesis
  proof (cases "2 * r < d \<or> (2 * r = d \<and> even q)")
    case True
    then have "round_half_even n d = q"
      by (simp add: round_half_even_def Let_def q_def r_def)
    moreover from True have "2 * r \<le> d" by auto
    then have "2 * real_of_int r \<le> real_of_int d" by linarith
    then have "real_of_int r / real_of_int d \<le> 1 / 2"
      using assms by (simp add: field_simps)
    moreover have "0 \<le> real_of_int r / real_of_int d" using r assms by simp
    ultimately show ?thesis by (simp add: frac)
  next
    case False
    then have "round_half_even n d = q + 1"
      by (simp add: round_half_even_def Let_def q_def r_def)
    moreover from False have "d \<le> 2 * r" by auto
    then have "real_of_int d \<le> 2 * real_of_int r" by linarith
    then have "1 / 2 \<le> real_of_int r / real_of_int d"
      using assms by (simp add: field_simps)
    moreover have "real_of_int r / real_of_int d < 1" using r assms by simp
    ultimately show ?thesis by (simp add: frac)
  qed
qed

lemma two_powr_int: "2 powr real_of_int e = 2 ^ nat e / 2 ^ nat (- e)"
proof (cases "0 \<le> e")
  case True
  then have "e = int (nat e)" by simp
  then have "2 powr real_of_int e = 2 powr real (nat e)" by (metis of_int_of_nat_eq)
  also have "\<dots> = 2 ^ nat e" by (rule powr_realpow) simp
  finally show ?thesis using True by simp
next
  case False
  then have "e = - int (nat (- e))" by simp
  then have "2 powr real_of_int e = 2 powr (- real (nat (- e)))"
    by (metis of_int_minus of_int_of_nat_eq)
  also have "\<dots> = 1 / 2 powr real (nat (- e))" by (simp add: powr_minus inverse_eq_divide)
  also have "2 powr real (nat (- e)) = 2 ^ nat (- e)" by (rule powr_realpow) simp
  finally show ?thesis using False by simp
qed

lemma real_bitlen:
  assumes "0 < n"
  obtains b where "bitlen n = Suc b" "2 ^ b \<le> real_of_int n" "real_of_int n < 2 * 2 ^ b"
proof -
  from assms have "0 < bitlen n" by (simp add: bitlen.simps [of n])
  then obtain b where b: "bitlen n = Suc b" by (cases "bitlen n") auto
  from bitlen_bounds [OF assms] b have "2 ^ b \<le> n" "n < 2 * 2 ^ b" by simp_all
  then have "real_of_int (2 ^ b) \<le> real_of_int n" "real_of_int n < real_of_int (2 * 2 ^ b)"
    by (simp_all only: of_int_le_iff of_int_less_iff)
  then have "2 ^ b \<le> real_of_int n" "real_of_int n < 2 * 2 ^ b" by simp_all
  with b that show ?thesis by blast
qed

lemma exponent_bounds:
  assumes n: "0 < n" and d: "0 < d"
  defines "l \<equiv> (if d * 2 ^ bitlen n \<le> n * 2 ^ bitlen d
                then int (bitlen n) - int (bitlen d) else int (bitlen n) - int (bitlen d) - 1)"
  shows "2 powr real_of_int l \<le> real_of_int n / real_of_int d"
proof -
  obtain a where a: "bitlen n = Suc a" "2 ^ a \<le> real_of_int n" "real_of_int n < 2 * 2 ^ a"
    using real_bitlen [OF n] by blast
  obtain b where b: "bitlen d = Suc b" "2 ^ b \<le> real_of_int d" "real_of_int d < 2 * 2 ^ b"
    using real_bitlen [OF d] by blast
  have rd: "0 < real_of_int d" using d by simp
  have pk: "2 powr (real a - real b) = 2 ^ a / 2 ^ b"
    by (simp add: powr_diff powr_realpow)
  show ?thesis
  proof (cases "d * 2 ^ bitlen n \<le> n * 2 ^ bitlen d")
    case True
    then have "real_of_int (d * 2 ^ bitlen n) \<le> real_of_int (n * 2 ^ bitlen d)"
      by (simp only: of_int_le_iff)
    then have "real_of_int d * 2 ^ a \<le> real_of_int n * 2 ^ b" by (simp add: a b)
    then have "2 ^ a / 2 ^ b \<le> real_of_int n / real_of_int d"
      using rd by (simp add: field_simps)
    moreover from True have "real_of_int l = real a - real b" by (simp add: l_def a b)
    ultimately show ?thesis by (simp add: pk)
  next
    case False
    then have "real_of_int l = real a - real b - 1" by (simp add: l_def a b)
    then have "2 powr real_of_int l = 2 powr (real a - real b) / 2"
      by (simp add: powr_diff)
    also have "\<dots> = 2 ^ a / 2 ^ b / 2" by (simp only: pk)
    also have "\<dots> = 2 ^ a / (2 * 2 ^ b)" by simp
    also have "\<dots> \<le> real_of_int n / real_of_int d"
    proof (rule frac_le)
      show "0 \<le> real_of_int n" using n by simp
      show "2 ^ a \<le> real_of_int n" by (rule a(2))
      show "0 < real_of_int d" by (rule rd)
      show "real_of_int d \<le> 2 * 2 ^ b" using b(3) by simp
    qed
    finally show ?thesis .
  qed
qed

lemma to_double_err:
  assumes n: "0 < n" and d: "0 < d"
  shows "\<bar>dval (to_double n d) - real_of_int n / real_of_int d\<bar>
           \<le> (real_of_int n / real_of_int d) / 2 ^ 53"
proof -
  define l where "l = (if d * 2 ^ bitlen n \<le> n * 2 ^ bitlen d
                then int (bitlen n) - int (bitlen d) else int (bitlen n) - int (bitlen d) - 1)"
  define e where "e = l - 52"
  define q where "q = real_of_int n / real_of_int d"
  define N M where "N = n * 2 ^ nat (- e)" and "M = d * 2 ^ nat e"
  define m where "m = round_half_even N M"
  define p where "p = 2 powr real_of_int e"
  have td: "to_double n d = (m, e)"
    using n by (simp add: to_double_def Let_def l_def e_def N_def M_def m_def)
  have lo: "2 powr real_of_int l \<le> q"
    unfolding q_def l_def by (rule exponent_bounds [OF n d])
  have ppos: "0 < p" by (simp add: p_def)
  have Mpos: "0 < M" using d by (simp add: M_def)
  have "real_of_int N / real_of_int M
      = (real_of_int n / real_of_int d) * (2 ^ nat (- e) / 2 ^ nat e)"
    by (simp add: N_def M_def)
  also have "2 ^ nat (- e) / 2 ^ nat e = 1 / p"
    by (simp add: p_def two_powr_int)
  finally have ratio: "real_of_int N / real_of_int M = q / p" by (simp add: q_def)
  from round_half_even_err [OF Mpos, of N]
  have r: "\<bar>real_of_int m - q / p\<bar> \<le> 1 / 2" by (simp add: ratio m_def)
  have "real_of_int m * p - q = (real_of_int m - q / p) * p"
    using ppos by (simp add: field_simps)
  then have "\<bar>real_of_int m * p - q\<bar> = \<bar>real_of_int m - q / p\<bar> * p"
    using ppos by (simp add: abs_mult)
  also have "\<dots> \<le> 1 / 2 * p"
    using r ppos by (intro mult_right_mono) simp_all
  also have "\<dots> \<le> q / 2 ^ 53"
  proof -
    have "real_of_int e = real_of_int l - 52" by (simp add: e_def)
    then have "p = 2 powr real_of_int l / 2 powr 52" by (simp add: p_def powr_diff)
    also have "(2::real) powr 52 = 2 ^ 52" by (simp add: powr_realpow [symmetric])
    finally have "p = 2 powr real_of_int l / 2 ^ 52" .
    with lo have "p \<le> q / 2 ^ 52" by (simp add: field_simps)
    then show ?thesis by simp
  qed
  finally show ?thesis by (simp add: td dval_def q_def p_def)
qed

lemma tenths_err: "\<bar>real_of_int (tenths x) - 10 * dval x\<bar> \<le> 1 / 2"
proof -
  obtain m e where x: "x = (m, e)" by (cases x)
  have pos: "(0::int) < 2 ^ nat (- e)" by simp
  have "real_of_int (m * 10 * 2 ^ nat e) / real_of_int (2 ^ nat (- e))
      = 10 * (real_of_int m * (2 ^ nat e / 2 ^ nat (- e)))"
    by simp
  also have "\<dots> = 10 * dval x" by (simp add: x dval_def two_powr_int)
  finally have r: "real_of_int (m * 10 * 2 ^ nat e) / real_of_int (2 ^ nat (- e)) = 10 * dval x" .
  from round_half_even_err [OF pos, of "m * 10 * 2 ^ nat e"] show ?thesis
    unfolding r by (simp add: tenths_def x)
qed

lemma float_div_err:
  assumes s: "0 < s" and D: "0 < D"
  shows "\<bar>dval (float_div s D) - real_of_int s / real_of_int D\<bar>
           \<le> (real_of_int s / real_of_int D) / 2 ^ 51"
proof -
  obtain m e where me: "to_double s 1 = (m, e)" by (cases "to_double s 1")
  define v where "v = dval (m, e)"
  define rs rD where "rs = real_of_int s" and "rD = real_of_int D"
  have rs: "0 < rs" and rD: "0 < rD" using s D by (simp_all add: rs_def rD_def)
  from to_double_err [of s 1] s me have e1: "\<bar>v - rs\<bar> \<le> rs / 2 ^ 53"
    by (simp add: v_def rs_def)
  have "rs / 2 ^ 53 < rs" using rs by simp
  with e1 have vpos: "0 < v" by linarith
  have vup: "v \<le> rs + rs / 2 ^ 53" using e1 by linarith
  have mpos: "0 < m"
  proof (rule ccontr)
    assume "\<not> 0 < m"
    then have "real_of_int m \<le> 0" by simp
    then have "real_of_int m * 2 powr real_of_int e \<le> 0"
      by (simp add: mult_le_0_iff)
    with vpos show False by (simp add: v_def dval_def)
  qed
  define n2 d2 where "n2 = m * 2 ^ nat e" and "d2 = D * 2 ^ nat (- e)"
  have n2: "0 < n2" using mpos by (simp add: n2_def)
  have d2: "0 < d2" using D by (simp add: d2_def)
  have fd: "float_div s D = to_double n2 d2"
    by (simp add: float_div_def me n2_def d2_def)
  have "real_of_int n2 / real_of_int d2 = (real_of_int m * (2 ^ nat e / 2 ^ nat (- e))) / rD"
    by (simp add: n2_def d2_def rD_def)
  also have "\<dots> = v / rD" by (simp add: v_def dval_def two_powr_int)
  finally have ratio: "real_of_int n2 / real_of_int d2 = v / rD" .
  from to_double_err [OF n2 d2] have e2: "\<bar>dval (float_div s D) - v / rD\<bar> \<le> (v / rD) / 2 ^ 53"
    by (simp add: fd ratio)
  have "\<bar>v / rD - rs / rD\<bar> = \<bar>v - rs\<bar> / rD"
    using rD by (simp add: diff_divide_distrib [symmetric])
  also have "\<dots> \<le> (rs / 2 ^ 53) / rD"
    using e1 rD by (intro divide_right_mono) simp_all
  finally have e3: "\<bar>v / rD - rs / rD\<bar> \<le> (rs / rD) / 2 ^ 53" by simp
  have "(v / rD) / 2 ^ 53 \<le> ((rs + rs / 2 ^ 53) / rD) / 2 ^ 53"
    using vup rD by (intro divide_right_mono) simp_all
  also have "\<dots> \<le> (2 * (rs / rD)) / 2 ^ 53"
    using rs rD by (simp add: field_simps)
  finally have e4: "(v / rD) / 2 ^ 53 \<le> (2 * (rs / rD)) / 2 ^ 53" .
  have "\<bar>dval (float_div s D) - rs / rD\<bar>
      \<le> \<bar>dval (float_div s D) - v / rD\<bar> + \<bar>v / rD - rs / rD\<bar>"
    by linarith
  also have "\<dots> \<le> (2 * (rs / rD)) / 2 ^ 53 + (rs / rD) / 2 ^ 53"
    using e2 e3 e4 by linarith
  also have "\<dots> \<le> (rs / rD) / 2 ^ 51"
    using rs rD by (simp add: field_simps)
  finally show ?thesis by (simp add: rs_def rD_def)
qed

lemma tenths_float_div_err:
  assumes s: "0 \<le> s" and D: "0 < D"
  shows "\<bar>real_of_int (tenths (float_div s D)) / 10 - real_of_int s / real_of_int D\<bar>
           \<le> 1 / 20 + (real_of_int s / real_of_int D) / 2 ^ 51"
proof (cases "s = 0")
  case True
  then have "float_div s D = (0, 0)" by (simp add: float_div_def to_double_def)
  then have "tenths (float_div s D) = 0" by (simp add: tenths_def round_half_even_def)
  with True show ?thesis by simp
next
  case False
  with s have "0 < s" by simp
  from float_div_err [OF this D] tenths_err [of "float_div s D"]
  show ?thesis by linarith
qed

section \<open>The path collector and the folding loop\<close>

lemma collect_blockless:
  "collect ex (filter (\<lambda>n. n \<noteq> Blockless) nodes) dm = collect ex nodes dm"
  by (induction ex nodes dm rule: collect.induct) (simp_all split: sum.splits)

lemma collect_raises:
  "Blockdev d \<in> set nodes \<Longrightarrow> resolve_lu ex d = Inl e \<Longrightarrow> \<exists>e'. collect ex nodes dm = Inl e'"
proof (induction ex nodes dm rule: collect.induct)
  case (1 ex dm)
  then show ?case by simp
next
  case (2 ex nodes dm)
  then show ?case by simp
next
  case (3 ex d' nodes dm)
  show ?case
  proof (cases "resolve_lu ex d'")
    case (Inl a)
    then show ?thesis by simp
  next
    case (Inr l)
    with 3 have "Blockdev d \<in> set nodes" by auto
    with 3 Inr show ?thesis by simp
  qed
qed

lemma resolve_lu_raises:
  "pg83_lookup ex d = Inl e1 \<Longrightarrow> vpd_get_page83_lu ex (blk_name (block d)) = Inl e2
   \<Longrightarrow> resolve_lu ex d = Inl (if e1 = AttributeError then e2 else e1)"
  by (simp add: resolve_lu_def)

lemma setdefault_append_keys:
  "map fst (setdefault_append k v f) = (if k \<in> fst ` set f then map fst f else map fst f @ [k])"
  by (induction f) (auto split: if_splits)

lemma setdefault_append_distinct:
  "distinct (map fst f) \<Longrightarrow> distinct (map fst (setdefault_append k v f))"
  by (simp add: setdefault_append_keys)

lemma setdefault_append_mset:
  "mset (concat (map snd (setdefault_append k v f))) = add_mset v (mset (concat (map snd f)))"
  by (induction f) auto

lemma setdefault_append_lengths:
  "sum_list (map (\<lambda>(t, v). length v) (setdefault_append k v f))
     = Suc (sum_list (map (\<lambda>(t, v). length v) f))"
  by (induction f) auto

lemma setdefault_append_has: "\<exists>vs. (k, vs) \<in> set (setdefault_append k v f) \<and> v \<in> set vs"
proof (induction f)
  case Nil
  then show ?case by simp
next
  case (Cons p f)
  obtain k' vs' where p: "p = (k', vs')" by (cases p)
  show ?case
  proof (cases "k = k'")
    case True
    then have "(k, vs' @ [v]) \<in> set (setdefault_append k v (p # f)) \<and> v \<in> set (vs' @ [v])"
      by (simp add: p)
    then show ?thesis by blast
  next
    case False
    with Cons p show ?thesis by auto
  qed
qed

lemma setdefault_append_keeps:
  "(k', vs) \<in> set f \<Longrightarrow> \<exists>vs'. (k', vs') \<in> set (setdefault_append k v f) \<and> set vs \<subseteq> set vs'"
proof (induction f)
  case Nil
  then show ?case by simp
next
  case (Cons p f)
  obtain k0 vs0 where p: "p = (k0, vs0)" by (cases p)
  show ?case
  proof (cases "k = k0")
    case True
    show ?thesis
    proof (cases "(k', vs) = p")
      case True
      with \<open>k = k0\<close> p
      have "(k', vs @ [v]) \<in> set (setdefault_append k v (p # f)) \<and> set vs \<subseteq> set (vs @ [v])"
        by auto
      then show ?thesis by blast
    next
      case False
      with Cons.prems have "(k', vs) \<in> set f" by simp
      with \<open>k = k0\<close> p have "(k', vs) \<in> set (setdefault_append k v (p # f))" by simp
      then show ?thesis by blast
    qed
  next
    case False
    show ?thesis
    proof (cases "(k', vs) = p")
      case True
      with \<open>k \<noteq> k0\<close> p have "(k', vs) \<in> set (setdefault_append k v (p # f))" by auto
      then show ?thesis by blast
    next
      case False
      with Cons.prems have "(k', vs) \<in> set f" by simp
      from Cons.IH [OF this] \<open>k \<noteq> k0\<close> p show ?thesis by auto
    qed
  qed
qed

lemma setdefault_append_from:
  "(k', vs') \<in> set (setdefault_append k v f) \<Longrightarrow> x \<in> set vs'
   \<Longrightarrow> (k' = k \<and> x = v) \<or> (\<exists>vs. (k', vs) \<in> set f \<and> x \<in> set vs)"
proof (induction f)
  case Nil
  then show ?case by simp
next
  case (Cons p f)
  obtain k0 vs0 where p: "p = (k0, vs0)" by (cases p)
  show ?case
  proof (cases "k = k0")
    case True
    with Cons.prems(1) p have "(k', vs') = (k0, vs0 @ [v]) \<or> (k', vs') \<in> set f" by simp
    then show ?thesis
    proof
      assume "(k', vs') = (k0, vs0 @ [v])"
      with Cons.prems(2) True have "(k' = k \<and> x = v) \<or> ((k', vs0) \<in> set (p # f) \<and> x \<in> set vs0)"
        by (auto simp: p)
      then show ?thesis by blast
    next
      assume "(k', vs') \<in> set f"
      with Cons.prems(2) have "(k', vs') \<in> set (p # f) \<and> x \<in> set vs'" by simp
      then show ?thesis by blast
    qed
  next
    case False
    with Cons.prems(1) p have "(k', vs') = p \<or> (k', vs') \<in> set (setdefault_append k v f)"
      by auto
    then show ?thesis
    proof
      assume "(k', vs') = p"
      with Cons.prems(2) have "(k', vs') \<in> set (p # f) \<and> x \<in> set vs'" by simp
      then show ?thesis by blast
    next
      assume "(k', vs') \<in> set (setdefault_append k v f)"
      from Cons.IH [OF this Cons.prems(2)] show ?thesis by auto
    qed
  qed
qed

lemma keyed_setdefault_append:
  "keyed f \<Longrightarrow> folded_key devs = Inr k \<Longrightarrow> keyed (setdefault_append k devs f)"
  unfolding keyed_def using setdefault_append_from [of _ _ k devs f] by fastforce

lemma fold_encdevs_cnt:
  "fold_encdevs encdevs (f, c) = Inr (f', c') \<Longrightarrow> c' = c + length encdevs"
  by (induction encdevs "(f, c)" arbitrary: f c rule: fold_encdevs.induct)
     (auto split: sum.splits)

lemma fold_encdevs_mset:
  "fold_encdevs encdevs (f, c) = Inr (f', c')
   \<Longrightarrow> mset (concat (map snd f')) = mset (concat (map snd f)) + mset (map snd encdevs)"
  by (induction encdevs "(f, c)" arbitrary: f c rule: fold_encdevs.induct)
     (auto split: sum.splits simp: setdefault_append_mset)

lemma fold_encdevs_lengths:
  "fold_encdevs encdevs (f, c) = Inr (f', c')
   \<Longrightarrow> sum_list (map (\<lambda>(t, v). length v) f')
       = sum_list (map (\<lambda>(t, v). length v) f) + length encdevs"
  by (induction encdevs "(f, c)" arbitrary: f c rule: fold_encdevs.induct)
     (auto split: sum.splits simp: setdefault_append_lengths)

lemma fold_encdevs_distinct:
  "fold_encdevs encdevs (f, c) = Inr (f', c') \<Longrightarrow> distinct (map fst f)
   \<Longrightarrow> distinct (map fst f')"
  by (induction encdevs "(f, c)" arbitrary: f c rule: fold_encdevs.induct)
     (auto split: sum.splits simp: setdefault_append_distinct)

lemma fold_encdevs_keyed:
  "fold_encdevs encdevs (f, c) = Inr (f', c') \<Longrightarrow> keyed f \<Longrightarrow> keyed f'"
  by (induction encdevs "(f, c)" arbitrary: f c rule: fold_encdevs.induct)
     (auto split: sum.splits simp: keyed_setdefault_append)

lemma fold_encdevs_keeps:
  "fold_encdevs encdevs (f, c) = Inr (f', c') \<Longrightarrow> (k, vs) \<in> set f
   \<Longrightarrow> \<exists>vs'. (k, vs') \<in> set f' \<and> set vs \<subseteq> set vs'"
proof (induction encdevs "(f, c)" arbitrary: f c vs rule: fold_encdevs.induct)
  case (1 f c)
  then show ?case by auto
next
  case (2 l devlist rest f c)
  from "2.prems"(1) obtain k' where k': "folded_key devlist = Inr k'"
    and r: "fold_encdevs rest (setdefault_append k' devlist f, c + 1) = Inr (f', c')"
    by (auto split: sum.splits)
  from setdefault_append_keeps [OF "2.prems"(2), of k' devlist]
  obtain vs1 where vs1: "(k, vs1) \<in> set (setdefault_append k' devlist f)" "set vs \<subseteq> set vs1"
    by blast
  from "2.hyps" [OF k' r vs1(1)] vs1(2) show ?case by blast
qed

lemma fold_encdevs_member:
  "fold_encdevs encdevs (f, c) = Inr (f', c') \<Longrightarrow> (l, devs) \<in> set encdevs
   \<Longrightarrow> \<exists>k vs. folded_key devs = Inr k \<and> (k, vs) \<in> set f' \<and> devs \<in> set vs"
proof (induction encdevs "(f, c)" arbitrary: f c rule: fold_encdevs.induct)
  case (1 f c)
  then show ?case by simp
next
  case (2 l' devlist rest f c)
  from "2.prems"(1) obtain k' where k': "folded_key devlist = Inr k'"
    and r: "fold_encdevs rest (setdefault_append k' devlist f, c + 1) = Inr (f', c')"
    by (auto split: sum.splits)
  show ?case
  proof (cases "(l, devs) \<in> set rest")
    case True
    from "2.hyps" [OF k' r True] show ?thesis .
  next
    case False
    with "2.prems"(2) have eq: "devs = devlist" by simp
    obtain vs where vs: "(k', vs) \<in> set (setdefault_append k' devlist f)" "devlist \<in> set vs"
      using setdefault_append_has [of k' devlist f] by blast
    from fold_encdevs_keeps [OF r vs(1)] vs(2) k' eq show ?thesis by blast
  qed
qed

lemma fold_encdevs_total:
  "list_all (\<lambda>(l, devs). \<exists>k. folded_key devs = Inr k) encdevs
   \<Longrightarrow> \<exists>f'. fold_encdevs encdevs (f, c) = Inr (f', c + length encdevs)"
  by (induction encdevs "(f, c)" arbitrary: f c rule: fold_encdevs.induct) auto

lemma folded_key_Inr:
  "folded_key devs = Inr k \<Longrightarrow>
   devs \<noteq> [] \<and> k = \<lparr>fd_vendor = vendor (hd devs), fd_model = model (hd devs),
                       fd_rev = rev_attr (hd devs),
                       fd_blk_sz_info = blk_sz_info (sizebytes (block (hd devs))),
                       paths = length devs\<rparr>"
  by (auto simp: folded_key_def get_dev_attrs_def split: list.splits option.splits)

lemma folded_key_returns:
  "devs \<noteq> [] \<Longrightarrow> bay_identifier (hd devs) \<noteq> None \<Longrightarrow> \<exists>k. folded_key devs = Inr k"
  by (cases devs) (auto simp: folded_key_def get_dev_attrs_def)

lemma fold_encdevs_returns_iff:
  "(\<exists>r. fold_encdevs encdevs (f, c) = Inr r)
     \<longleftrightarrow> (\<forall>(l, devs) \<in> set encdevs. devs \<noteq> [] \<and> bay_identifier (hd devs) \<noteq> None)"
proof (induction encdevs "(f, c)" arbitrary: f c rule: fold_encdevs.induct)
  case (1 f c)
  then show ?case by simp
next
  case (2 l devlist rest f c)
  show ?case
  proof (cases "folded_key devlist")
    case (Inl e)
    then have "devlist = [] \<or> bay_identifier (hd devlist) = None"
      using folded_key_returns [of devlist] by auto
    with Inl show ?thesis by auto
  next
    case (Inr k)
    from folded_key_Inr [OF Inr] have ne: "devlist \<noteq> []" by simp
    from Inr have bay: "bay_identifier (hd devlist) \<noteq> None"
      by (auto simp: folded_key_def get_dev_attrs_def split: list.splits option.splits)
    from "2.hyps" [OF Inr] Inr ne bay show ?thesis by simp
  qed
qed

lemma keyed_Nil: "keyed []" by (simp add: keyed_def)

lemma distinct_fst_unique:
  "distinct (map fst f) \<Longrightarrow> (k, v) \<in> set f \<Longrightarrow> (k, v') \<in> set f \<Longrightarrow> v = v'"
  by (meson eq_key_imp_eq_value)

lemma paths_field_marker:
  "0 < m \<Longrightarrow> paths_field n (Some m)
     = (if n < m then str_int (int n) @ ''*'' else str_int (int n))"
  by (simp add: paths_field_def)

lemma folded_line_ignores_maxpaths: "folded_line maxpaths tv = folded_line 0 tv"
  by (simp add: folded_line_def Let_def split: prod.splits)

section \<open>Enclosure groups\<close>

text \<open>
  C1, as the code has it. The scan of line 140 stops at the first group that overlaps
  the enclosures of a unit and never merges two groups, so the groups cover the
  enclosures seen in the input: every enclosure of a block device is in a group, and
  every element of a group is such an enclosure. When no unit is a bridge, the groups
  are pairwise disjoint and every enclosure seen is in exactly one of them.
\<close>

theorem enclosure_groups_cover_and_disjoint:
  "\<Union> (set (encgroups (cluster dm no_clustering))) = (\<Union>(l, devs) \<in> set dm. lu_encs devs)
   \<and> (no_bridge [] dm \<longrightarrow>
        disjoint_groups (encgroups (cluster dm no_clustering))
        \<and> (\<forall>(l, devs) \<in> set dm. \<forall>e \<in> lu_encs devs.
              length (filter (\<lambda>encset. e \<in> encset) (encgroups (cluster dm no_clustering))) = 1))"
proof -
  let ?gs = "encgroups (cluster dm no_clustering)"
  have cover: "\<Union> (set ?gs) = (\<Union>(l, devs) \<in> set dm. lu_encs devs)"
    by (auto simp: encgroups_cluster Union_foldl_add_encs lu_enc_sets_def)
  moreover have "disjoint_groups ?gs
      \<and> (\<forall>(l, devs) \<in> set dm. \<forall>e \<in> lu_encs devs. length (filter (\<lambda>encset. e \<in> encset) ?gs) = 1)"
    if nb: "no_bridge [] dm"
  proof -
    from nb have d: "disjoint_groups ?gs" by (rule no_bridge_disjoint)
    have "length (filter (\<lambda>encset. e \<in> encset) ?gs) = 1"
      if "(l, devs) \<in> set dm" "e \<in> lu_encs devs" for l devs e
    proof -
      from that cover have "e \<in> \<Union> (set ?gs)" by blast
      with d show ?thesis by (rule disjoint_count)
    qed
    with d show ?thesis by blast
  qed
  ultimately show ?thesis by blast
qed

theorem enclosure_groups_witness:
  "no_bridge [] two_groups_devmap
   \<and> encgroups (cluster two_groups_devmap no_clustering) = [{1}, {2, 3}]
   \<and> disjoint_groups (encgroups (cluster two_groups_devmap no_clustering))
   \<and> \<Union> (set (encgroups (cluster two_groups_devmap no_clustering))) = {1, 2, 3}"
proof -
  have nb: "no_bridge [] two_groups_devmap" by code_simp
  have eq: "encgroups (cluster two_groups_devmap no_clustering) = [{1}, {2, 3}]" by code_simp
  from enclosure_groups_cover_and_disjoint [of two_groups_devmap] nb
  have "disjoint_groups (encgroups (cluster two_groups_devmap no_clustering))" by blast
  moreover have "\<Union> (set (encgroups (cluster two_groups_devmap no_clustering))) = {1, 2, 3}"
    unfolding eq by auto
  ultimately show ?thesis using nb eq by blast
qed

text \<open>
  C1 as stated fails: the third unit of \<open>bridge_devmap\<close> has a path through each
  of the enclosures 1 and 2, which already are groups of their own. The first group
  takes both enclosures in, the second stays, and enclosure 2 is in both.
\<close>

theorem bridge_counterexample:
  "encgroups (cluster bridge_devmap no_clustering) = [{1, 2}, {2}]
   \<and> \<not> disjoint_groups (encgroups (cluster bridge_devmap no_clustering))
   \<and> length (filter (\<lambda>encset. 2 \<in> encset) (encgroups (cluster bridge_devmap no_clustering))) = 2"
  by code_simp

section \<open>Units, groups and orphans\<close>

text \<open>
  C2, as the code has it. A unit of the device map is an orphan, and then no group
  selects it, or it is no orphan, and then at least one group selects it; when no
  unit is a bridge, exactly one group does.
\<close>

theorem unit_in_orphans_or_groups:
  assumes "(l, devs) \<in> set dm"
  shows "((l, devs) \<in> set (orphans (cluster dm no_clustering))
            \<and> group_count (encgroups (cluster dm no_clustering)) (l, devs) = 0)
         \<or> ((l, devs) \<notin> set (orphans (cluster dm no_clustering))
            \<and> 1 \<le> group_count (encgroups (cluster dm no_clustering)) (l, devs)
            \<and> (no_bridge [] dm \<longrightarrow>
                 group_count (encgroups (cluster dm no_clustering)) (l, devs) = 1))"
proof (cases "lu_encs devs = {}")
  case True
  with assms have "(l, devs) \<in> set (orphans (cluster dm no_clustering))"
    by (auto simp: cluster_orphans no_clustering_def)
  moreover from True have "group_count (encgroups (cluster dm no_clustering)) (l, devs) = 0"
    by (simp add: group_count_overlap)
  ultimately show ?thesis by blast
next
  case False
  let ?gs = "encgroups (cluster dm no_clustering)"
  from False have no: "(l, devs) \<notin> set (orphans (cluster dm no_clustering))"
    by (auto simp: cluster_orphans no_clustering_def)
  from assms False have "lu_encs devs \<in> set (lu_enc_sets dm)"
    by (rule lu_enc_sets_mem)
  from foldl_add_encs_home [OF this, of "[]"]
  obtain i where i: "i < length ?gs" "lu_encs devs \<subseteq> ?gs ! i"
    unfolding encgroups_cluster by blast
  then have "?gs ! i \<in> set ?gs" "?gs ! i \<inter> lu_encs devs \<noteq> {}"
    using False by auto
  then have "filter (\<lambda>g. g \<inter> lu_encs devs \<noteq> {}) ?gs \<noteq> []"
    by (auto simp: filter_empty_conv)
  then have ge: "1 \<le> group_count ?gs (l, devs)"
    by (simp add: group_count_overlap Suc_le_eq)
  have "group_count ?gs (l, devs) = 1" if "no_bridge [] dm"
  proof -
    from that have "disjoint_groups ?gs" by (rule no_bridge_disjoint)
    from disjoint_overlap_count [OF this i False] show ?thesis
      by (simp add: group_count_overlap)
  qed
  with no ge show ?thesis by blast
qed

theorem unit_membership_witness:
  "(two_groups_devmap ! 2) \<in> set two_groups_devmap
   \<and> no_bridge [] two_groups_devmap
   \<and> (two_groups_devmap ! 2) \<notin> set (orphans (cluster two_groups_devmap no_clustering))
   \<and> group_count (encgroups (cluster two_groups_devmap no_clustering)) (two_groups_devmap ! 2) = 1
   \<and> (two_groups_devmap ! 3) \<in> set (orphans (cluster two_groups_devmap no_clustering))
   \<and> group_count (encgroups (cluster two_groups_devmap no_clustering)) (two_groups_devmap ! 3) = 0"
proof -
  let ?u = "two_groups_devmap ! 2"
  have m: "(fst ?u, snd ?u) \<in> set two_groups_devmap" by code_simp
  have nb: "no_bridge [] two_groups_devmap" by code_simp
  have no: "?u \<notin> set (orphans (cluster two_groups_devmap no_clustering))"
    by code_simp
  have 1: "group_count (encgroups (cluster two_groups_devmap no_clustering)) ?u = 1"
    using unit_in_orphans_or_groups [OF m] nb no by simp
  have 2: "(two_groups_devmap ! 3) \<in> set (orphans (cluster two_groups_devmap no_clustering))"
    by code_simp
  have 3: "group_count (encgroups (cluster two_groups_devmap no_clustering)) (two_groups_devmap ! 3) = 0"
    by code_simp
  from m have m': "?u \<in> set two_groups_devmap" by simp
  from m' nb no 1 2 3 show ?thesis by (intro conjI)
qed

text \<open>
  C2 as stated fails on \<open>bridge_devmap\<close>: the unit with a path through each
  enclosure is selected by both groups, and so is the unit of enclosure 2.
\<close>

theorem unit_in_two_groups_counterexample:
  "bridge_devmap ! 2 \<in> set bridge_devmap
   \<and> group_count (encgroups (cluster bridge_devmap no_clustering)) (bridge_devmap ! 2) = 2
   \<and> bridge_devmap ! 1 \<in> set bridge_devmap
   \<and> group_count (encgroups (cluster bridge_devmap no_clustering)) (bridge_devmap ! 1) = 2"
  by code_simp

text \<open>
  C10. A group of the clustering contains all enclosures of some unit that has one,
  so a block device of the device map has an enclosure in the group, the list of
  the units of the group is not empty, and \<^verbatim>\<open>max\<close> returns.
\<close>

theorem group_has_member:
  assumes "encset \<in> set (encgroups (cluster dm no_clustering))"
  shows "(\<exists>(l, devs) \<in> set dm. \<exists>d \<in> set devs. \<exists>enc \<in> encset. array_device (block d) = Some enc)
         \<and> filter (enclosure_finder encset) dm \<noteq> []
         \<and> (\<exists>n. max_paths (filter (enclosure_finder encset) dm) = Inr n)"
proof -
  from assms have "encset \<in> set (foldl (\<lambda>gs encs. add_encs encs gs) [] (lu_enc_sets dm))"
    by (simp add: encgroups_cluster)
  from foldl_add_encs_origin [OF this]
  have "\<exists>e \<in> set (lu_enc_sets dm). e \<subseteq> encset" by simp
  then obtain l devs where u: "(l, devs) \<in> set dm" "lu_encs devs \<noteq> {}" "lu_encs devs \<subseteq> encset"
    using lu_enc_sets_origin by blast
  then obtain enc where "enc \<in> lu_encs devs" "enc \<in> encset" by blast
  then obtain d where d: "d \<in> set devs" "array_device (block d) = Some enc"
    unfolding lu_encs_iff by blast
  with u(1) \<open>enc \<in> encset\<close>
  have 1: "\<exists>(l, devs) \<in> set dm. \<exists>d \<in> set devs. \<exists>enc \<in> encset. array_device (block d) = Some enc"
    by blast
  from u have "enclosure_finder encset (l, devs)"
    unfolding enclosure_finder_iff by blast
  with u(1) have 2: "filter (enclosure_finder encset) dm \<noteq> []"
    by (auto simp: filter_empty_conv)
  from 1 2 max_paths_nonempty [OF 2] show ?thesis by blast
qed

theorem group_has_member_witness:
  "{2, 3} \<in> set (encgroups (cluster two_groups_devmap no_clustering))
   \<and> filter (enclosure_finder {2, 3}) two_groups_devmap \<noteq> []
   \<and> max_paths (filter (enclosure_finder {2, 3}) two_groups_devmap) = Inr 2"
proof -
  have m: "{2, 3} \<in> set (encgroups (cluster two_groups_devmap no_clustering))" by code_simp
  from group_has_member [OF m]
  have 1: "filter (enclosure_finder {2, 3}) two_groups_devmap \<noteq> []" by (rule conjunct1 [OF conjunct2])
  have 2: "max_paths (filter (enclosure_finder {2, 3}) two_groups_devmap) = Inr 2" by code_simp
  from m 1 2 show ?thesis by (intro conjI)
qed



section \<open>The path collector\<close>

text \<open>
  C9. An end device whose SCSI device has no block device leaves no trace: the run
  prints the same lines, and ends the same way, as the run without these nodes.
\<close>

theorem blockless_nodes_excluded:
  "print_end_devices ex verbose sysfsnode
     = print_end_devices ex verbose (filter (\<lambda>n. n \<noteq> Blockless) sysfsnode)"
  by (simp add: print_end_devices_def collect_blockless)

text \<open>
  C3, as the code has it. There is no count of skipped devices and no handler for
  the failure of the second lookup: when an end device with a block device fails
  both lookups, the exception leaves \<^verbatim>\<open>print_end_devices\<close>, which has printed
  nothing. The run reports no group and no orphan, whatever the other nodes are.
\<close>

theorem unidentified_device_aborts:
  assumes "Blockdev d \<in> set sysfsnode"
    and "pg83_lookup ex d = Inl e1"
    and "vpd_get_page83_lu ex (blk_name (block d)) = Inl e2"
  shows "\<exists>e. print_end_devices ex verbose sysfsnode = ([], Some e)"
proof -
  from assms(2,3) have "resolve_lu ex d = Inl (if e1 = AttributeError then e2 else e1)"
    by (rule resolve_lu_raises)
  with assms(1) obtain e where "collect ex sysfsnode [] = Inl e"
    using collect_raises by blast
  then show ?thesis by (simp add: print_end_devices_def)
qed

theorem unidentified_device_witness:
  "Blockdev ((disk ''LU1'' ''sda'' 1 (4 * 10 ^ 12) (Some 1))\<lparr>vpd_pg83 := None\<rparr>) \<in> set unidentified_nodes
   \<and> pg83_lookup example_extern ((disk ''LU1'' ''sda'' 1 (4 * 10 ^ 12) (Some 1))\<lparr>vpd_pg83 := None\<rparr>)
       = Inl AttributeError
   \<and> vpd_get_page83_lu example_extern ''sda'' = Inl IdentifierUnavailable
   \<and> (\<exists>e. print_end_devices example_extern True unidentified_nodes = ([], Some e))"
proof -
  let ?d = "(disk ''LU1'' ''sda'' 1 (4 * 10 ^ 12) (Some 1))\<lparr>vpd_pg83 := None\<rparr>"
  have 1: "Blockdev ?d \<in> set unidentified_nodes" by (simp add: unidentified_nodes_def)
  have 2: "pg83_lookup example_extern ?d = Inl AttributeError"
    by (simp add: pg83_lookup_def disk_def)
  have 3: "vpd_get_page83_lu example_extern (blk_name (block ?d)) = Inl IdentifierUnavailable"
    by (simp add: example_extern_def)
  have 5: "vpd_get_page83_lu example_extern ''sda'' = Inl IdentifierUnavailable"
    by (simp add: example_extern_def)
  from unidentified_device_aborts [OF 1 2 3]
  have 4: "\<exists>e. print_end_devices example_extern True unidentified_nodes = ([], Some e)" .
  from 1 2 5 4 show ?thesis by (intro conjI)
qed

text \<open>
  C3 as stated fails: the first node of \<open>unidentified_nodes\<close> has no page 0x83
  attribute and the lookup by name fails; the run ends with that exception and prints
  nothing, though the second node alone is reported as a group of one disk.
\<close>

theorem unidentified_device_counterexample:
  "print_end_devices example_extern False unidentified_nodes = ([], Some IdentifierUnavailable)
   \<and> print_end_devices example_extern False (tl unidentified_nodes)
       = ([''Found 1 enclosure groups'',
           ''Enclosure group: [ACME JBOD, addr: 0x50001]'',
           ''NUM         VENDOR        MODEL    REV  PATHS'',
           ''  1 x         ACME           D1    1.0      1'',
           ''Total: 1 block devices in enclosure group''], None)"
  by code_simp

section \<open>Folded profiles\<close>

text \<open>
  C4, as the code has it. Line 186 takes the bay out of the attributes and nothing
  else, so the key of a unit is the vendor, the model, the revision, the size text
  and the number of paths of its first device. The keys of \<^verbatim>\<open>folded\<close> are
  distinct, and two units of the group are in one entry exactly when they agree on
  these five attributes, whatever their bays are.
\<close>

theorem folded_entries_by_key:
  assumes "fold_encdevs encdevs ([], 0) = Inr (folded, cnt)"
    and "(l1, devs1) \<in> set encdevs" and "(l2, devs2) \<in> set encdevs"
  shows "distinct (map fst folded)
     \<and> ((\<exists>t v. (t, v) \<in> set folded \<and> devs1 \<in> set v \<and> devs2 \<in> set v)
          \<longleftrightarrow> (vendor (hd devs1) = vendor (hd devs2)
               \<and> model (hd devs1) = model (hd devs2)
               \<and> rev_attr (hd devs1) = rev_attr (hd devs2)
               \<and> blk_sz_info (sizebytes (block (hd devs1)))
                   = blk_sz_info (sizebytes (block (hd devs2)))
               \<and> length devs1 = length devs2))"
proof -
  let ?same = "vendor (hd devs1) = vendor (hd devs2)
               \<and> model (hd devs1) = model (hd devs2)
               \<and> rev_attr (hd devs1) = rev_attr (hd devs2)
               \<and> blk_sz_info (sizebytes (block (hd devs1)))
                   = blk_sz_info (sizebytes (block (hd devs2)))
               \<and> length devs1 = length devs2"
  from assms(1) have d: "distinct (map fst folded)"
    by (rule fold_encdevs_distinct) simp
  from assms(1) have k: "keyed folded"
    by (rule fold_encdevs_keyed) (rule keyed_Nil)
  from fold_encdevs_member [OF assms(1,2)]
  obtain k1 v1 where 1: "folded_key devs1 = Inr k1" "(k1, v1) \<in> set folded" "devs1 \<in> set v1"
    by blast
  from fold_encdevs_member [OF assms(1,3)]
  obtain k2 v2 where 2: "folded_key devs2 = Inr k2" "(k2, v2) \<in> set folded" "devs2 \<in> set v2"
    by blast
  have keys: "k1 = k2 \<longleftrightarrow> ?same"
    using folded_key_Inr [OF 1(1)] folded_key_Inr [OF 2(1)] by auto
  have "(\<exists>t v. (t, v) \<in> set folded \<and> devs1 \<in> set v \<and> devs2 \<in> set v) \<longleftrightarrow> k1 = k2"
  proof
    assume "\<exists>t v. (t, v) \<in> set folded \<and> devs1 \<in> set v \<and> devs2 \<in> set v"
    then obtain t v where tv: "(t, v) \<in> set folded" "devs1 \<in> set v" "devs2 \<in> set v" by blast
    with k have "folded_key devs1 = Inr t" "folded_key devs2 = Inr t"
      unfolding keyed_def by blast+
    with 1(1) 2(1) show "k1 = k2" by simp
  next
    assume "k1 = k2"
    with d 1(2) 2(2) have "v1 = v2" by (auto dest: distinct_fst_unique)
    with 1 2 show "\<exists>t v. (t, v) \<in> set folded \<and> devs1 \<in> set v \<and> devs2 \<in> set v" by blast
  qed
  with keys d show ?thesis by simp
qed

theorem folded_entries_witness:
  "(\<exists>folded. fold_encdevs twins_encdevs ([], 0) = Inr (folded, 2)
       \<and> (\<exists>t v. (t, v) \<in> set folded \<and> snd (twins_encdevs ! 0) \<in> set v
             \<and> snd (twins_encdevs ! 1) \<in> set v)
       \<and> distinct (map fst folded))
   \<and> bay_identifier (hd (snd (twins_encdevs ! 0))) = Some 1
   \<and> bay_identifier (hd (snd (twins_encdevs ! 1))) = Some 2"
proof -
  let ?u1 = "twins_encdevs ! 0" and ?u2 = "twins_encdevs ! 1"
  obtain folded where f: "fold_encdevs twins_encdevs ([], 0) = Inr (folded, 0 + length twins_encdevs)"
    using fold_encdevs_total [of twins_encdevs "[]" 0]
    by (auto simp: twins_encdevs_def folded_key_def get_dev_attrs_def disk_def)
  have m1: "(fst ?u1, snd ?u1) \<in> set twins_encdevs"
    and m2: "(fst ?u2, snd ?u2) \<in> set twins_encdevs"
    by (simp_all add: twins_encdevs_def)
  have same: "vendor (hd (snd ?u1)) = vendor (hd (snd ?u2))
               \<and> model (hd (snd ?u1)) = model (hd (snd ?u2))
               \<and> rev_attr (hd (snd ?u1)) = rev_attr (hd (snd ?u2))
               \<and> blk_sz_info (sizebytes (block (hd (snd ?u1))))
                   = blk_sz_info (sizebytes (block (hd (snd ?u2))))
               \<and> length (snd ?u1) = length (snd ?u2)"
    by (simp add: twins_encdevs_def disk_def)
  from folded_entries_by_key [OF f m1 m2] same
  have 1: "(\<exists>t v. (t, v) \<in> set folded \<and> snd ?u1 \<in> set v \<and> snd ?u2 \<in> set v)
       \<and> distinct (map fst folded)"
    by blast
  have l: "0 + length twins_encdevs = 2" by (simp add: twins_encdevs_def)
  have b: "bay_identifier (hd (snd ?u1)) = Some 1" "bay_identifier (hd (snd ?u2)) = Some 2"
    by (simp_all add: twins_encdevs_def disk_def)
  from f l 1 have "\<exists>folded. fold_encdevs twins_encdevs ([], 0) = Inr (folded, 2)
       \<and> (\<exists>t v. (t, v) \<in> set folded \<and> snd ?u1 \<in> set v \<and> snd ?u2 \<in> set v)
       \<and> distinct (map fst folded)"
    by auto
  with b show ?thesis by (intro conjI)
qed

text \<open>
  C4 as stated fails: the two units of \<open>sizes_encdevs\<close> agree on vendor, model,
  revision and number of paths, and have 500 GB and 2 TB. They make two entries of
  one unit each, printed as two equal lines.
\<close>

theorem folded_by_size_counterexample:
  "report_group example_extern False sizes_encdevs {1}
     = ([''Enclosure group: [ACME JBOD, addr: 0x50001]'',
         ''NUM         VENDOR        MODEL    REV  PATHS'',
         ''  1 x         ACME           D1    1.0      2'',
         ''  1 x         ACME           D1    1.0      2'',
         ''Total: 2 block devices in enclosure group''], None)
   \<and> map (\<lambda>(t, v). (fd_vendor t, fd_model t, fd_rev t, fd_blk_sz_info t, paths t, length v))
        (fst (projr (fold_encdevs sizes_encdevs ([], 0))))
       = [(''ACME'', ''D1'', ''1.0'', ''500.0GB'', 2, 1), (''ACME'', ''D1'', ''1.0'', ''2.0TB'', 2, 1)]"
  by code_simp

text \<open>
  C5. When every unit of the group has a first device whose bay is an integer, the
  folding loop returns, its count is the number of units, and the units of the
  entries of \<^verbatim>\<open>folded\<close> are the units of the group, as multisets: none is lost
  and none is there twice. The lengths of the entries add up to the number of units,
  and no key has two entries. In every other case the loop raises
  (\<open>fold_encdevs_returns_iff\<close>).
\<close>

theorem folding_keeps_units:
  assumes "\<forall>(l, devs) \<in> set encdevs. devs \<noteq> [] \<and> bay_identifier (hd devs) \<noteq> None"
  shows "\<exists>folded. fold_encdevs encdevs ([], 0) = Inr (folded, length encdevs)
     \<and> mset (concat (map snd folded)) = mset (map snd encdevs)
     \<and> sum_list (map (\<lambda>(t, v). length v) folded) = length encdevs
     \<and> distinct (map fst folded)"
proof -
  from assms have "list_all (\<lambda>(l, devs). \<exists>k. folded_key devs = Inr k) encdevs"
    by (auto simp: list_all_iff folded_key_returns)
  from fold_encdevs_total [OF this, of "[]" 0]
  obtain folded where f: "fold_encdevs encdevs ([], 0) = Inr (folded, length encdevs)"
    by auto
  from fold_encdevs_mset [OF f] fold_encdevs_lengths [OF f] fold_encdevs_distinct [OF f] f
  show ?thesis by auto
qed

theorem folding_keeps_units_witness:
  "list_all (\<lambda>(l, devs). devs \<noteq> [] \<and> bay_identifier (hd devs) \<noteq> None) three_encdevs
   \<and> fold_encdevs three_encdevs ([], 0)
      = Inr ([(\<lparr>fd_vendor = ''ACME'', fd_model = ''D1'', fd_rev = ''1.0'',
                 fd_blk_sz_info = ''2.0TB'', paths = 2\<rparr>,
               [snd (three_encdevs ! 0), snd (three_encdevs ! 2)]),
              (\<lparr>fd_vendor = ''ACME'', fd_model = ''D1'', fd_rev = ''1.0'',
                 fd_blk_sz_info = ''2.0TB'', paths = 1\<rparr>,
               [snd (three_encdevs ! 1)])], 3)
   \<and> (\<exists>folded. fold_encdevs three_encdevs ([], 0) = Inr (folded, 3)
        \<and> mset (concat (map snd folded)) = mset (map snd three_encdevs)
        \<and> sum_list (map (\<lambda>(t, v). length v) folded) = 3
        \<and> distinct (map fst folded))"
proof -
  have h: "list_all (\<lambda>(l, devs). devs \<noteq> [] \<and> bay_identifier (hd devs) \<noteq> None) three_encdevs"
    by (simp add: three_encdevs_def disk_def)
  then have h': "\<forall>(l, devs) \<in> set three_encdevs. devs \<noteq> [] \<and> bay_identifier (hd devs) \<noteq> None"
    by (simp add: list_all_iff)
  have e: "fold_encdevs three_encdevs ([], 0)
      = Inr ([(\<lparr>fd_vendor = ''ACME'', fd_model = ''D1'', fd_rev = ''1.0'',
                 fd_blk_sz_info = ''2.0TB'', paths = 2\<rparr>,
               [snd (three_encdevs ! 0), snd (three_encdevs ! 2)]),
              (\<lparr>fd_vendor = ''ACME'', fd_model = ''D1'', fd_rev = ''1.0'',
                 fd_blk_sz_info = ''2.0TB'', paths = 1\<rparr>,
               [snd (three_encdevs ! 1)])], 3)"
    by code_simp
  have l: "length three_encdevs = 3" by (simp add: three_encdevs_def)
  from folding_keeps_units [OF h']
  have t: "\<exists>folded. fold_encdevs three_encdevs ([], 0) = Inr (folded, 3)
        \<and> mset (concat (map snd folded)) = mset (map snd three_encdevs)
        \<and> sum_list (map (\<lambda>(t, v). length v) folded) = 3
        \<and> distinct (map fst folded)"
    unfolding l .
  from h e t show ?thesis by (intro conjI)
qed

section \<open>The marker of a unit with fewer paths\<close>

text \<open>
  C6 holds for the lines of \<^verbatim>\<open>_print_lu_devlist\<close> (\<open>paths_field_marker\<close>), and
  fails for the folded lines: line 193 appends the marker to \<open>pathstr\<close>, and line
  197 prints \<open>infostr\<close>, which does not contain \<open>pathstr\<close>. In the run below the
  group has a unit with two paths and a unit with one path; the maximum is 2, and
  the entry of the unit with one path is printed without marker. The two summary
  lines stand in the order of the dictionary.
\<close>

theorem folded_summary_lacks_marker:
  "print_end_devices example_extern False underpathed_nodes
     = ([''Found 1 enclosure groups'',
         ''Enclosure group: [ACME JBOD, addr: 0x50001]'',
         ''NUM         VENDOR        MODEL    REV  PATHS'',
         ''  1 x         ACME           D1    1.0      2'',
         ''  1 x         ACME           D1    1.0      1'',
         ''Total: 2 block devices in enclosure group''], None)
   \<and> max_paths (projr (collect example_extern underpathed_nodes [])) = Inr 2"
  by code_simp

section \<open>The size attribute\<close>

text \<open>
  C8. The size attribute that \<^verbatim>\<open>_get_dev_attrs\<close> returns for a size of \<open>s\<close>
  bytes ends in TB exactly when \<open>s\<close> is at least \<open>10 ^ 12\<close>, and in GB otherwise.
  Before the unit stands a decimal with one fractional digit, \<open>t\<close> tenths, whose
  value is \<open>s / 10 ^ 12\<close> for TB and \<open>s / 10 ^ 9\<close> for GB up to the rounding to
  one digit and the two roundings of the doubles.
\<close>

theorem size_unit_threshold:
  assumes "get_dev_attrs d = Inr info" and "0 \<le> sizebytes (block d)"
  shows "((\<exists>v. res_blk_sz_info info = v @ ''TB'') \<longleftrightarrow> 10 ^ 12 \<le> sizebytes (block d))
     \<and> ((\<exists>v. res_blk_sz_info info = v @ ''GB'') \<longleftrightarrow> sizebytes (block d) < 10 ^ 12)
     \<and> (10 ^ 12 \<le> sizebytes (block d) \<longrightarrow>
          (\<exists>t. res_blk_sz_info info = str_pos (t div 10) @ ''.'' @ str_pos (t mod 10) @ ''TB''
             \<and> t = tenths (float_div (sizebytes (block d)) (10 ^ 12))
             \<and> \<bar>real_of_int t / 10 - real_of_int (sizebytes (block d)) / 10 ^ 12\<bar>
                 \<le> 1 / 20 + real_of_int (sizebytes (block d)) / 10 ^ 12 / 2 ^ 51))
     \<and> (sizebytes (block d) < 10 ^ 12 \<longrightarrow>
          (\<exists>t. res_blk_sz_info info = str_pos (t div 10) @ ''.'' @ str_pos (t mod 10) @ ''GB''
             \<and> t = tenths (float_div (sizebytes (block d)) (10 ^ 9))
             \<and> \<bar>real_of_int t / 10 - real_of_int (sizebytes (block d)) / 10 ^ 9\<bar>
                 \<le> 1 / 20 + real_of_int (sizebytes (block d)) / 10 ^ 9 / 2 ^ 51))"
proof -
  let ?s = "sizebytes (block d)"
  from assms(1) have r: "res_blk_sz_info info = blk_sz_info ?s"
    by (auto simp: get_dev_attrs_def split: option.splits)
  have 1: "(\<exists>v. res_blk_sz_info info = v @ ''TB'') \<longleftrightarrow> 10 ^ 12 \<le> ?s"
    unfolding r by (auto simp: blk_sz_info_def)
  have 2: "(\<exists>v. res_blk_sz_info info = v @ ''GB'') \<longleftrightarrow> ?s < 10 ^ 12"
    unfolding r by (auto simp: blk_sz_info_def)
  have 3: "\<bar>real_of_int (tenths (float_div ?s (10 ^ 12))) / 10 - real_of_int ?s / 10 ^ 12\<bar>
                 \<le> 1 / 20 + real_of_int ?s / 10 ^ 12 / 2 ^ 51"
    using tenths_float_div_err [OF assms(2), of "10 ^ 12"] by simp
  have 4: "\<bar>real_of_int (tenths (float_div ?s (10 ^ 9))) / 10 - real_of_int ?s / 10 ^ 9\<bar>
                 \<le> 1 / 20 + real_of_int ?s / 10 ^ 9 / 2 ^ 51"
    using tenths_float_div_err [OF assms(2), of "10 ^ 9"] by simp
  have 5: "res_blk_sz_info info
      = str_pos (tenths (float_div ?s (10 ^ 12)) div 10) @ ''.''
        @ str_pos (tenths (float_div ?s (10 ^ 12)) mod 10) @ ''TB''" if "10 ^ 12 \<le> ?s"
    unfolding r using that by (simp add: blk_sz_info_def pct_1f_def Let_def)
  have 6: "res_blk_sz_info info
      = str_pos (tenths (float_div ?s (10 ^ 9)) div 10) @ ''.''
        @ str_pos (tenths (float_div ?s (10 ^ 9)) mod 10) @ ''GB''" if "?s < 10 ^ 12"
    unfolding r using that by (simp add: blk_sz_info_def pct_1f_def Let_def)
  from 1 2 3 4 5 6 show ?thesis by blast
qed

theorem size_unit_witness:
  "(\<exists>info. get_dev_attrs (disk ''LU1'' ''sda'' 1 1000000000000 (Some 1)) = Inr info
       \<and> res_blk_sz_info info = ''1.0TB'')
   \<and> (\<exists>info. get_dev_attrs (disk ''LU1'' ''sda'' 1 999999999999 (Some 1)) = Inr info
       \<and> res_blk_sz_info info = ''1000.0GB'')
   \<and> (\<exists>info. get_dev_attrs (disk ''LU1'' ''sda'' 1 4000787030016 (Some 1)) = Inr info
       \<and> res_blk_sz_info info = ''4.0TB'')
   \<and> (\<exists>info. get_dev_attrs (disk ''LU1'' ''sda'' 1 500107862016 (Some 1)) = Inr info
       \<and> res_blk_sz_info info = ''500.1GB'')"
proof -
  have sz: "sizebytes (block (disk l nm bay s enc)) = s" for l nm bay s enc
    by (simp add: disk_def)
  have g: "\<exists>info. get_dev_attrs (disk l nm bay s enc) = Inr info" for l nm bay s enc
    by (simp add: get_dev_attrs_def disk_def)
  have 1: "tenths (float_div 1000000000000 1000000000000) = 10" by code_simp
  have 2: "tenths (float_div 999999999999 1000000000) = 10000" by code_simp
  have 3: "tenths (float_div 4000787030016 1000000000000) = 40" by code_simp
  have 4: "tenths (float_div 500107862016 1000000000) = 5001" by code_simp
  have s1: "str_pos 1 = ''1''" "str_pos 0 = ''0''" "str_pos 1000 = ''1000''"
    "str_pos 4 = ''4''" "str_pos 500 = ''500''"
    by code_simp+
  have a: "\<exists>info. get_dev_attrs (disk ''LU1'' ''sda'' 1 1000000000000 (Some 1)) = Inr info
       \<and> res_blk_sz_info info = ''1.0TB''"
  proof -
    from g obtain info where i: "get_dev_attrs (disk ''LU1'' ''sda'' 1 1000000000000 (Some 1)) = Inr info"
      by blast
    have p: "0 \<le> sizebytes (block (disk ''LU1'' ''sda'' 1 1000000000000 (Some 1)))"
      by (simp add: sz)
    from size_unit_threshold [OF i p] have "res_blk_sz_info info = ''1.0TB''"
      by (simp add: sz 1 s1)
    with i show ?thesis by blast
  qed
  have b: "\<exists>info. get_dev_attrs (disk ''LU1'' ''sda'' 1 999999999999 (Some 1)) = Inr info
       \<and> res_blk_sz_info info = ''1000.0GB''"
  proof -
    from g obtain info where i: "get_dev_attrs (disk ''LU1'' ''sda'' 1 999999999999 (Some 1)) = Inr info"
      by blast
    have p: "0 \<le> sizebytes (block (disk ''LU1'' ''sda'' 1 999999999999 (Some 1)))"
      by (simp add: sz)
    from size_unit_threshold [OF i p] have "res_blk_sz_info info = ''1000.0GB''"
      by (simp add: sz 2 s1)
    with i show ?thesis by blast
  qed
  have c: "\<exists>info. get_dev_attrs (disk ''LU1'' ''sda'' 1 4000787030016 (Some 1)) = Inr info
       \<and> res_blk_sz_info info = ''4.0TB''"
  proof -
    from g obtain info where i: "get_dev_attrs (disk ''LU1'' ''sda'' 1 4000787030016 (Some 1)) = Inr info"
      by blast
    have p: "0 \<le> sizebytes (block (disk ''LU1'' ''sda'' 1 4000787030016 (Some 1)))"
      by (simp add: sz)
    from size_unit_threshold [OF i p] have "res_blk_sz_info info = ''4.0TB''"
      by (simp add: sz 3 s1)
    with i show ?thesis by blast
  qed
  have d: "\<exists>info. get_dev_attrs (disk ''LU1'' ''sda'' 1 500107862016 (Some 1)) = Inr info
       \<and> res_blk_sz_info info = ''500.1GB''"
  proof -
    from g obtain info where i: "get_dev_attrs (disk ''LU1'' ''sda'' 1 500107862016 (Some 1)) = Inr info"
      by blast
    have p: "0 \<le> sizebytes (block (disk ''LU1'' ''sda'' 1 500107862016 (Some 1)))"
      by (simp add: sz)
    from size_unit_threshold [OF i p] have "res_blk_sz_info info = ''500.1GB''"
      by (simp add: sz 4 s1)
    with i show ?thesis by blast
  qed
  from a b c d show ?thesis by (intro conjI)
qed

end
